theory Spec2Isabelle
  imports
    Main
    "HOL-Library.Sublist"
    "HOL-Library.AList"
    "HOL-Library.Char_ord"
    "HOL-Library.List_Lexorder"
begin

section \<open>JavaScript values used by src/lib/shared/KeySequenceParser.js\<close>

text \<open>
  A JavaScript string is a sequence of UTF-16 code units. The model uses \<^typ>\<open>string\<close>,
  whose characters are the code units below 256; a character is read as the code unit
  of the same number.
\<close>

subsection \<open>Errors\<close>

text \<open>
  \<open>InvalidKeyNameError\<close> is the error \<open>parseCombination\<close> throws itself; \<open>OtherError\<close>
  stands for any other value a callee may throw (a \<open>TypeError\<close>, say), with a description.
\<close>

datatype js_error = InvalidKeyNameError | OtherError string

subsection \<open>String operations\<close>

text \<open>
  The regular expression class \<open>\s\<close>, on code units below 256: tab, line feed, vertical
  tab, form feed, carriage return, space and no-break space.
\<close>

definition isSpace :: "char \<Rightarrow> bool" where
  "isSpace c = (c \<in> set [CHR 0x09, CHR 0x0A, CHR 0x0B, CHR 0x0C, CHR 0x0D, CHR '' '', CHR 0xA0])"

text \<open>
  \<open>String.prototype.indexOf(searchString)\<close>: the index of the first occurrence of the
  search string, or \<open>-1\<close>.
\<close>

fun indexOfFrom :: "nat \<Rightarrow> string \<Rightarrow> string \<Rightarrow> int" where
  "indexOfFrom i pat [] = (if pat = [] then int i else - 1)"
| "indexOfFrom i pat (c # cs) =
     (if prefix pat (c # cs) then int i else indexOfFrom (Suc i) pat cs)"

definition indexOf :: "string \<Rightarrow> string \<Rightarrow> int" where
  "indexOf s pat = indexOfFrom 0 pat s"

text \<open>
  \<open>indexOf\<close> converts its argument to a string first. The source passes the regular
  expression literals \<open>/[sS]hift/\<close> and \<open>/[aA]lt/\<close>; the string conversion of a regular
  expression is its source text between slashes, followed by its flags (none here).
\<close>

definition regExpToString :: "string \<Rightarrow> string" where
  "regExpToString src = ''/'' @ src @ ''/''"

text \<open>
  \<open>String.prototype.split(separator)\<close> for a one-character separator. The result
  is never empty, so the last case below is never taken.
\<close>

fun splitOn :: "char \<Rightarrow> string \<Rightarrow> string list" where
  "splitOn sep [] = [[]]"
| "splitOn sep (c # cs) =
     (if c = sep then [] # splitOn sep cs
      else (case splitOn sep cs of
              t # ts \<Rightarrow> (c # t) # ts
            | [] \<Rightarrow> [[c]]))"

text \<open>\<open>Array.prototype.join(separator)\<close> on an array of strings.\<close>

fun joinWith :: "string \<Rightarrow> string list \<Rightarrow> string" where
  "joinWith sep [] = []"
| "joinWith sep [x] = x"
| "joinWith sep (x # y # ys) = x @ sep @ joinWith sep (y # ys)"

subsection \<open>The rewrite \<open>string.replace(/^\+|(\s|[^+]\+)\+/, '$1plus')\<close>\<close>

text \<open>
  The second alternative of the pattern, \<open>(\s|[^+]\+)\+\<close>, matched at the head of a string:
  the text of group 1 and what follows the match. The group tries \<open>\s\<close> before \<open>[^+]\+\<close>.
\<close>

fun matchGroupPlus :: "string \<Rightarrow> (string \<times> string) option" where
  "matchGroupPlus (c # p # rest) =
     (if isSpace c \<and> p = CHR ''+'' then Some ([c], rest)
      else if c \<noteq> CHR ''+'' \<and> p = CHR ''+'' then
        (case rest of
           q # rest' \<Rightarrow> if q = CHR ''+'' then Some ([c, p], rest') else None
         | [] \<Rightarrow> None)
      else None)"
| "matchGroupPlus _ = None"

text \<open>
  The search for the leftmost match from a position where \<open>^\<close> cannot match, with the
  replacement \<open>$1plus\<close> made at the first match (the pattern has no \<open>g\<close> flag).
\<close>

fun replaceRest :: "string \<Rightarrow> string" where
  "replaceRest [] = []"
| "replaceRest (c # cs) =
     (case matchGroupPlus (c # cs) of
        Some (g, rest) \<Rightarrow> g @ ''plus'' @ rest
      | None \<Rightarrow> c # replaceRest cs)"

text \<open>
  At position 0 the first alternative \<open>^\+\<close> is tried first; group 1 did not take part
  in that match, so \<open>$1\<close> is the empty string.
\<close>

definition replacePlus :: "string \<Rightarrow> string" where
  "replacePlus s =
     (case s of
        c # rest \<Rightarrow> if c = CHR ''+'' then ''plus'' @ rest else replaceRest s
      | [] \<Rightarrow> [])"

subsection \<open>Plain objects used as dictionaries\<close>

text \<open>
  The key dictionary is a plain object created by \<open>{}\<close>. The model keeps its own
  properties in the order \<open>Object.keys\<close> lists them: array indices (canonical decimal
  numerals below \<open>2^32 - 1 = 4294967295\<close>) in ascending order, then the other names in the order of
  their creation.
\<close>

type_synonym key_dictionary = "(string \<times> bool) list"

definition objectKeys :: "key_dictionary \<Rightarrow> string list" where
  "objectKeys d = map fst d"

definition isDigit :: "char \<Rightarrow> bool" where
  "isDigit c = (c \<in> set ''0123456789'')"

definition digitsValue :: "string \<Rightarrow> int" where
  "digitsValue k = foldl (\<lambda>n c. 10 * n + (of_char c - 48)) 0 k"

definition arrayIndex :: "string \<Rightarrow> int option" where
  "arrayIndex k =
     (if k \<noteq> [] \<and> list_all isDigit k \<and> (hd k \<noteq> CHR ''0'' \<or> k = ''0'')
         \<and> digitsValue k < 4294967295
      then Some (digitsValue k) else None)"

definition indexBelow :: "int \<Rightarrow> string \<times> bool \<Rightarrow> bool" where
  "indexBelow n e = (case arrayIndex (fst e) of Some m \<Rightarrow> m < n | None \<Rightarrow> False)"

text \<open>
  The assignment \<open>object[key] = value\<close> with a boolean value. The name \<open>__proto__\<close> is
  inherited from \<open>Object.prototype\<close> as an accessor whose setter ignores a value that is
  neither an object nor \<open>null\<close>, so that assignment creates no property. Assigning to an
  existing property keeps its place.
\<close>

definition objectSet :: "key_dictionary \<Rightarrow> string \<Rightarrow> bool \<Rightarrow> key_dictionary" where
  "objectSet d k v =
     (if k = ''__proto__'' then d
      else if k \<in> set (objectKeys d) then AList.update k v d
      else (case arrayIndex k of
              None \<Rightarrow> d @ [(k, v)]
            | Some n \<Rightarrow> takeWhile (indexBelow n) d @ [(k, v)] @ dropWhile (indexBelow n) d))"

section \<open>The parser\<close>

subsection \<open>Collaborators and records\<close>

text \<open>
  The four imported helpers are not part of the parser's source file; the parser is
  modelled for any helpers of these types. The three that are called inside the \<open>try\<close>
  block may throw, and what they throw is caught there. \<open>stripSuperfluousWhitespace\<close> is
  called before the \<open>try\<close> block and is taken as a total function on strings.
\<close>

record modifiers =
  shift :: bool
  alt :: bool

record collaborators =
  stripSuperfluousWhitespace :: "string \<Rightarrow> string"
  standardizeKeyName :: "string \<Rightarrow> modifiers \<Rightarrow> js_error + string"
  isValidKey :: "string \<Rightarrow> js_error + bool"
  normalizedCombinationId :: "key_dictionary \<Rightarrow> js_error + string"

text \<open>
  The \<open>options\<close> argument. \<open>keyEventType\<close> is of any type; \<open>ensureValidKeys\<close> is the
  truthiness of the property (absent counts as false).
\<close>

record 'e options =
  keyEventType :: 'e
  ensureValidKeys :: bool

text \<open>
  \<open>BasicKeyCombination\<close>, \<open>BasicKeySequence\<close> and \<open>KeySequenceOptions\<close>. The fields
  \<open>id\<close>, \<open>size\<close>, \<open>keyEventType\<close> and \<open>prefix\<close> carry a suffix, the plain names being
  taken. \<open>None\<close> is \<open>null\<close>.
\<close>

record 'e basic_key_combination =
  id_c :: string
  keyDictionary :: key_dictionary
  keyEventType_c :: 'e
  size_c :: nat

record basic_key_sequence =
  prefix_s :: string
  size_s :: nat

record 'e key_sequence_options =
  sequence :: "basic_key_sequence option"
  combination :: "'e basic_key_combination option"

subsection \<open>\<open>parseCombination\<close>\<close>

definition shiftPressed :: "string \<Rightarrow> bool" where
  "shiftPressed s = (indexOf s (regExpToString ''[sS]hift'') \<noteq> - 1)"

definition altPressed :: "string \<Rightarrow> bool" where
  "altPressed s = (indexOf s (regExpToString ''[aA]lt'') \<noteq> - 1)"

text \<open>The object \<open>{ shift: shiftPressed, alt: altPressed }\<close> handed to \<open>standardizeKeyName\<close>.\<close>

definition modifiersOf :: "string \<Rightarrow> modifiers" where
  "modifiersOf s = \<lparr>shift = shiftPressed s, alt = altPressed s\<rparr>"

text \<open>The array that \<open>reduce\<close> runs over.\<close>

definition keyNames :: "string \<Rightarrow> string list" where
  "keyNames s = splitOn CHR ''+'' (replacePlus s)"

text \<open>
  The \<open>reduce\<close> callback applied from left to right; \<open>dict\<close> is the accumulator
  \<open>keyDictionary\<close>, and a \<open>throw\<close> ends the loop.
\<close>

fun reduceKeys ::
  "collaborators \<Rightarrow> 'e options \<Rightarrow> modifiers \<Rightarrow> key_dictionary \<Rightarrow> string list
     \<Rightarrow> js_error + key_dictionary" where
  "reduceKeys C opts ctx dict [] = Inr dict"
| "reduceKeys C opts ctx dict (keyName # rest) =
     (case standardizeKeyName C keyName ctx of
        Inl e \<Rightarrow> Inl e
      | Inr finalKeyName \<Rightarrow>
          (if ensureValidKeys opts then
             (case isValidKey C finalKeyName of
                Inl e \<Rightarrow> Inl e
              | Inr valid \<Rightarrow>
                  if \<not> valid then Inl InvalidKeyNameError
                  else reduceKeys C opts ctx (objectSet dict finalKeyName True) rest)
           else reduceKeys C opts ctx (objectSet dict finalKeyName True) rest))"

definition parseCombination ::
  "collaborators \<Rightarrow> string \<Rightarrow> 'e options \<Rightarrow> js_error + key_dictionary" where
  "parseCombination C s opts = reduceKeys C opts (modifiersOf s) [] (keyNames s)"

subsection \<open>\<open>KeySequenceParser.parse\<close>\<close>

text \<open>\<open>Array.prototype.map\<close> with a callback that may throw.\<close>

fun mapE :: "('a \<Rightarrow> js_error + 'b) \<Rightarrow> 'a list \<Rightarrow> js_error + 'b list" where
  "mapE f [] = Inr []"
| "mapE f (x # xs) =
     (case f x of
        Inl e \<Rightarrow> Inl e
      | Inr y \<Rightarrow> (case mapE f xs of Inl e \<Rightarrow> Inl e | Inr ys \<Rightarrow> Inr (y # ys)))"

text \<open>The callback of \<open>nonTerminalCombinations.map\<close>.\<close>

definition combinationId :: "collaborators \<Rightarrow> 'e options \<Rightarrow> string \<Rightarrow> js_error + string" where
  "combinationId C opts keyCombination =
     (case parseCombination C keyCombination opts of
        Inl e \<Rightarrow> Inl e
      | Inr keysInComboDict \<Rightarrow> normalizedCombinationId C keysInComboDict)"

definition keyCombinationsArray :: "collaborators \<Rightarrow> string \<Rightarrow> string list" where
  "keyCombinationsArray C sequenceString =
     splitOn CHR '' '' (stripSuperfluousWhitespace C sequenceString)"

text \<open>
  The body of the \<open>try\<close> block. \<open>slice(0, length - 1)\<close> is \<^const>\<open>butlast\<close>; the array is
  never empty (\<open>split\<close> returns at least one string), so its last element exists.
\<close>

definition parseTry ::
  "collaborators \<Rightarrow> string list \<Rightarrow> 'e options \<Rightarrow> js_error + 'e key_sequence_options" where
  "parseTry C combos opts =
     (let nonTerminalCombinations = butlast combos;
          terminalCombination = last combos
      in case mapE (combinationId C opts) nonTerminalCombinations of
           Inl e \<Rightarrow> Inl e
         | Inr ids \<Rightarrow>
             (case parseCombination C terminalCombination opts of
                Inl e \<Rightarrow> Inl e
              | Inr keysInComboDict \<Rightarrow>
                  (case normalizedCombinationId C keysInComboDict of
                     Inl e \<Rightarrow> Inl e
                   | Inr normalizedComboString \<Rightarrow>
                       Inr \<lparr>sequence = Some
                              \<lparr>prefix_s = joinWith '' '' ids,
                               size_s = length nonTerminalCombinations + 1\<rparr>,
                            combination = Some
                              \<lparr>id_c = normalizedComboString,
                               keyDictionary = keysInComboDict,
                               keyEventType_c = keyEventType opts,
                               size_c = length (objectKeys keysInComboDict)\<rparr>\<rparr>)))"

text \<open>\<open>catch (InvalidKeyNameError)\<close> binds whatever was thrown to a variable of that name.\<close>

definition parse :: "collaborators \<Rightarrow> string \<Rightarrow> 'e options \<Rightarrow> 'e key_sequence_options" where
  "parse C sequenceString opts =
     (case parseTry C (keyCombinationsArray C sequenceString) opts of
        Inl e \<Rightarrow> \<lparr>sequence = None, combination = None\<rparr>
      | Inr result \<Rightarrow> result)"

section \<open>Notions used to state the properties\<close>

subsection \<open>A sample of the helper modules\<close>

text \<open>
  Modelled from the spec: the helper modules \<open>stripSuperfluousWhitespace\<close>,
  \<open>standardizeKeyName\<close>, \<open>isValidKey\<close> and \<open>normalizedCombinationId\<close> are imported by the
  parser and are not part of its source file. The sample below follows what the spec
  says of them: whitespace runs collapse to one space and the ends are trimmed;
  \<open>esc\<close> becomes \<open>Escape\<close>, \<open>plus\<close> becomes the plus key and an unknown token is kept as
  it is; \<open>foobar\<close> is not a recognised key; the identifier of a combination is its key
  names sorted and joined by \<open>+\<close>. The properties below are proved for all helpers;
  the sample serves to evaluate them on concrete inputs.
\<close>

definition sampleStrip :: "string \<Rightarrow> string" where
  "sampleStrip s =
     joinWith '' '' (filter (\<lambda>w. w \<noteq> [])
       (splitOn CHR '' '' (map (\<lambda>c. if isSpace c then CHR '' '' else c) s)))"

definition sampleStandardize :: "string \<Rightarrow> modifiers \<Rightarrow> js_error + string" where
  "sampleStandardize keyName ctx =
     Inr (case map_of [(''esc'', ''Escape''), (''plus'', ''+'')] keyName of
            Some n \<Rightarrow> n
          | None \<Rightarrow> keyName)"

definition sampleIsValid :: "string \<Rightarrow> js_error + bool" where
  "sampleIsValid k =
     Inr (length k = 1 \<or> k \<in> set [''Escape'', ''shift'', ''alt'', ''ctrl'', ''meta''])"

definition sampleNormalizedId :: "key_dictionary \<Rightarrow> js_error + string" where
  "sampleNormalizedId d = Inr (joinWith ''+'' (sort (objectKeys d)))"

definition sample :: collaborators where
  "sample =
     \<lparr>stripSuperfluousWhitespace = sampleStrip,
      standardizeKeyName = sampleStandardize,
      isValidKey = sampleIsValid,
      normalizedCombinationId = sampleNormalizedId\<rparr>"

text \<open>A validity check and a normalizer that throw whenever they are called.\<close>

definition throwingIsValid :: "string \<Rightarrow> js_error + bool" where
  "throwingIsValid k = Inl (OtherError ''isValidKey was called'')"

definition throwingNormalizedId :: "key_dictionary \<Rightarrow> js_error + string" where
  "throwingNormalizedId d = Inl (OtherError ''TypeError'')"

subsection \<open>Predicates\<close>

text \<open>
  The canonical names of a combination string: what \<open>standardizeKeyName\<close> returns for
  its key names, in order.
\<close>

definition canonicalNames :: "collaborators \<Rightarrow> string \<Rightarrow> string list" where
  "canonicalNames C s =
     List.map_filter
       (\<lambda>keyName. case standardizeKeyName C keyName (modifiersOf s) of
                     Inr n \<Rightarrow> Some n
                   | Inl e \<Rightarrow> None)
       (keyNames s)"

text \<open>
  Modelled from the spec: \<open>normalizedCombinationId\<close> is imported by the parser and is
  not part of its source file. The spec says that it returns the canonical identifier
  of a set of key names, whatever their order: its result depends on the set of the
  dictionary's keys only.
\<close>

definition orderIndependent :: "(key_dictionary \<Rightarrow> js_error + string) \<Rightarrow> bool" where
  "orderIndependent N =
     (\<forall>d d'. distinct (objectKeys d) \<and> distinct (objectKeys d')
         \<and> set (objectKeys d) = set (objectKeys d') \<longrightarrow> N d = N d')"

text \<open>Containment of a word whatever the case of its letters (ASCII letters).\<close>

definition toLowerAscii :: "char \<Rightarrow> char" where
  "toLowerAscii c =
     (if CHR ''A'' \<le> c \<and> c \<le> CHR ''Z'' then char_of (of_char c + (32 :: nat)) else c)"

definition containsIgnoringCase :: "string \<Rightarrow> string \<Rightarrow> bool" where
  "containsIgnoringCase word s = sublist (map toLowerAscii word) (map toLowerAscii s)"

text \<open>
  The occurrences of \<open>+\<close> the rewrite pattern describes: the \<open>+\<close> at index \<open>i\<close> of \<open>s\<close>
  qualifies when it is the first character (\<open>^\+\<close>), or follows a whitespace character
  (\<open>\s\+\<close>), or follows a \<open>+\<close> that follows a character other than \<open>+\<close> (\<open>[^+]\+\+\<close>).
\<close>

definition plusQualifies :: "string \<Rightarrow> nat \<Rightarrow> bool" where
  "plusQualifies s i =
     (i < length s \<and> s ! i = CHR ''+'' \<and>
       (i = 0
        \<or> (1 \<le> i \<and> isSpace (s ! (i - 1)))
        \<or> (2 \<le> i \<and> s ! (i - 1) = CHR ''+'' \<and> s ! (i - 2) \<noteq> CHR ''+'')))"

definition firstQualifying :: "string \<Rightarrow> nat \<Rightarrow> bool" where
  "firstQualifying s i = (plusQualifies s i \<and> list_all (\<lambda>j. \<not> plusQualifies s j) [0..<i])"

definition noneQualifies :: "string \<Rightarrow> bool" where
  "noneQualifies s = list_all (\<lambda>j. \<not> plusQualifies s j) [0..<length s]"


section \<open>Lemmas about the string and object operations\<close>

subsection \<open>\<open>split\<close> and \<open>join\<close>\<close>

lemma splitOn_nonempty [simp]: "splitOn sep s \<noteq> []"
  by (induction s) (auto split: list.splits)

lemma length_splitOn: "length (splitOn sep s) = Suc (count_list s sep)"
  by (induction s) (auto split: list.splits)

lemma splitOn_no_sep: "t \<in> set (splitOn sep s) \<Longrightarrow> sep \<notin> set t"
  by (induction s arbitrary: t) (auto split: list.splits if_splits)

lemma splitOn_no_sep_id: "sep \<notin> set s \<Longrightarrow> splitOn sep s = [s]"
  by (induction s) auto

lemma joinWith_Cons: "ys \<noteq> [] \<Longrightarrow> joinWith sep (x # ys) = x @ sep @ joinWith sep ys"
  by (cases ys) auto

lemma joinWith_Cons_Cons: "joinWith sep ((a # x) # xs) = a # joinWith sep (x # xs)"
  by (cases xs) auto

lemma joinWith_splitOn: "joinWith [sep] (splitOn sep s) = s"
proof (induction s)
  case Nil
  show ?case by simp
next
  case (Cons c cs)
  obtain t ts where sp: "splitOn sep cs = t # ts"
    by (cases "splitOn sep cs") auto
  with Cons show ?case
    by (auto simp: joinWith_Cons joinWith_Cons_Cons)
qed

lemma hd_splitOn_Nil: "hd (splitOn sep s) = [] \<longleftrightarrow> s = [] \<or> hd s = sep"
  by (induction s) (auto split: list.splits)

lemma all_nonempty_hd_tl:
  "xs \<noteq> [] \<Longrightarrow> (\<forall>t\<in>set xs. t \<noteq> []) \<longleftrightarrow> hd xs \<noteq> [] \<and> (\<forall>t\<in>set (tl xs). t \<noteq> [])"
  by (cases xs) auto

lemma sublist_pair_Cons:
  "sublist [a, a] (c # cs) \<longleftrightarrow> (c = a \<and> cs \<noteq> [] \<and> hd cs = a) \<or> sublist [a, a] cs"
  by (cases cs) (auto simp: sublist_Cons_right)

lemma tl_splitOn_Cons:
  "tl (splitOn sep (c # cs)) = (if c = sep then splitOn sep cs else tl (splitOn sep cs))"
  by (cases "splitOn sep cs") auto

lemma tl_splitOn_nonempty_iff:
  "(\<forall>t\<in>set (tl (splitOn sep s)). t \<noteq> []) \<longleftrightarrow>
     (s = [] \<or> last s \<noteq> sep) \<and> \<not> sublist [sep, sep] s"
proof (induction s)
  case Nil
  show ?case by simp
next
  case (Cons c cs)
  show ?case
  proof (cases "c = sep")
    case True
    have "(\<forall>t\<in>set (tl (splitOn sep (c # cs))). t \<noteq> []) \<longleftrightarrow>
            (\<forall>t\<in>set (splitOn sep cs). t \<noteq> [])"
      using True by (simp only: tl_splitOn_Cons) simp
    also have "\<dots> \<longleftrightarrow> hd (splitOn sep cs) \<noteq> [] \<and> (\<forall>t\<in>set (tl (splitOn sep cs)). t \<noteq> [])"
      by (rule all_nonempty_hd_tl) simp
    also have "\<dots> \<longleftrightarrow> (cs \<noteq> [] \<and> hd cs \<noteq> sep) \<and> ((cs = [] \<or> last cs \<noteq> sep) \<and> \<not> sublist [sep, sep] cs)"
      by (simp only: Cons.IH hd_splitOn_Nil de_Morgan_disj)
    also have "\<dots> \<longleftrightarrow> (c # cs = [] \<or> last (c # cs) \<noteq> sep) \<and> \<not> sublist [sep, sep] (c # cs)"
      using True by (simp add: sublist_pair_Cons) blast
    finally show ?thesis .
  next
    case False
    have "(\<forall>t\<in>set (tl (splitOn sep (c # cs))). t \<noteq> []) \<longleftrightarrow>
            (\<forall>t\<in>set (tl (splitOn sep cs)). t \<noteq> [])"
      using False by (simp only: tl_splitOn_Cons) simp
    also have "\<dots> \<longleftrightarrow> (cs = [] \<or> last cs \<noteq> sep) \<and> \<not> sublist [sep, sep] cs"
      by (rule Cons.IH)
    also have "\<dots> \<longleftrightarrow> (c # cs = [] \<or> last (c # cs) \<noteq> sep) \<and> \<not> sublist [sep, sep] (c # cs)"
      using False by (simp add: sublist_pair_Cons)
    finally show ?thesis .
  qed
qed

lemma splitOn_all_nonempty_iff:
  "(\<forall>t\<in>set (splitOn sep s). t \<noteq> []) \<longleftrightarrow>
     s \<noteq> [] \<and> hd s \<noteq> sep \<and> last s \<noteq> sep \<and> \<not> sublist [sep, sep] s"
proof -
  have "(\<forall>t\<in>set (splitOn sep s). t \<noteq> []) \<longleftrightarrow>
          hd (splitOn sep s) \<noteq> [] \<and> (\<forall>t\<in>set (tl (splitOn sep s)). t \<noteq> [])"
    by (rule all_nonempty_hd_tl) simp
  also have "\<dots> \<longleftrightarrow> (s \<noteq> [] \<and> hd s \<noteq> sep) \<and> ((s = [] \<or> last s \<noteq> sep) \<and> \<not> sublist [sep, sep] s)"
    by (simp only: tl_splitOn_nonempty_iff hd_splitOn_Nil de_Morgan_disj)
  also have "\<dots> \<longleftrightarrow> s \<noteq> [] \<and> hd s \<noteq> sep \<and> last s \<noteq> sep \<and> \<not> sublist [sep, sep] s"
    by blast
  finally show ?thesis .
qed

subsection \<open>\<open>indexOf\<close>\<close>

lemma indexOfFrom_sublist: "indexOfFrom i pat s \<noteq> - 1 \<longleftrightarrow> sublist pat s"
  by (induction i pat s rule: indexOfFrom.induct) (auto simp: sublist_Cons_right)

lemma indexOf_sublist: "indexOf s pat \<noteq> - 1 \<longleftrightarrow> sublist pat s"
  by (simp add: indexOf_def indexOfFrom_sublist)

subsection \<open>The rewrite of \<open>+\<close>\<close>

lemma matchGroupPlus_None_qualifies:
  assumes "matchGroupPlus (c # cs) = None"
  shows "plusQualifies (c # cs) (Suc j) \<and> Suc j \<noteq> 0 \<longleftrightarrow> plusQualifies cs j \<and> j \<noteq> 0"
proof (cases j)
  case 0
  with assms show ?thesis
    by (cases cs) (auto simp: plusQualifies_def split: if_splits list.splits)
next
  case (Suc k)
  show ?thesis
  proof (cases k)
    case 0
    with Suc assms show ?thesis
      by (cases cs) (auto simp: plusQualifies_def numeral_2_eq_2 split: if_splits list.splits)
  next
    case (Suc m)
    with \<open>j = Suc k\<close> show ?thesis
      by (auto simp: plusQualifies_def numeral_2_eq_2)
  qed
qed

lemma matchGroupPlus_Some_cases:
  assumes "matchGroupPlus u = Some (g, rest)"
  obtains (space) c where "isSpace c" "u = c # CHR ''+'' # rest" "g = [c]"
  | (plus) c where "c \<noteq> CHR ''+''" "\<not> isSpace c" "u = c # CHR ''+'' # CHR ''+'' # rest"
      "g = [c, CHR ''+'']"
  using assms
  by (cases u rule: matchGroupPlus.cases) (auto split: if_splits list.splits)

lemma replaceRest_none:
  "(\<And>i. \<not> (plusQualifies u i \<and> i \<noteq> 0)) \<Longrightarrow> replaceRest u = u"
proof (induction u)
  case Nil
  show ?case by simp
next
  case (Cons c cs)
  have none: "matchGroupPlus (c # cs) = None"
  proof (cases "matchGroupPlus (c # cs)")
    case (Some gr)
    obtain g rest where gr: "gr = (g, rest)" by (cases gr)
    from Some [unfolded gr] show ?thesis
    proof (cases rule: matchGroupPlus_Some_cases)
      case (space c')
      then have "plusQualifies (c # cs) 1"
        by (simp add: plusQualifies_def)
      with Cons.prems [of 1] show ?thesis by simp
    next
      case (plus c')
      then have "plusQualifies (c # cs) 2"
        by (simp add: plusQualifies_def)
      with Cons.prems [of 2] show ?thesis by simp
    qed
  qed simp
  have "\<not> (plusQualifies cs j \<and> j \<noteq> 0)" for j
    using Cons.prems [of "Suc j"] matchGroupPlus_None_qualifies [OF none, of j] by blast
  then have "replaceRest cs = cs"
    by (rule Cons.IH)
  with none show ?case by simp
qed

lemma replaceRest_first:
  "plusQualifies u i \<Longrightarrow> i \<noteq> 0 \<Longrightarrow> (\<And>j. j < i \<Longrightarrow> \<not> (plusQualifies u j \<and> j \<noteq> 0)) \<Longrightarrow>
     replaceRest u = take i u @ ''plus'' @ drop (Suc i) u"
proof (induction u arbitrary: i)
  case Nil
  then show ?case by (simp add: plusQualifies_def)
next
  case (Cons c cs)
  show ?case
  proof (cases "matchGroupPlus (c # cs)")
    case None
    from Cons.prems(2) obtain j where i: "i = Suc j"
      by (cases i) auto
    have q: "plusQualifies cs j \<and> j \<noteq> 0"
      using Cons.prems(1) matchGroupPlus_None_qualifies [OF None, of j] by (simp add: i)
    have "\<not> (plusQualifies cs k \<and> k \<noteq> 0)" if "k < j" for k
      using Cons.prems(3) [of "Suc k"] that matchGroupPlus_None_qualifies [OF None, of k]
      by (simp add: i)
    with q have "replaceRest cs = take j cs @ ''plus'' @ drop (Suc j) cs"
      by (intro Cons.IH) auto
    with None show ?thesis by (simp add: i)
  next
    case (Some gr)
    obtain g rest where gr: "gr = (g, rest)" by (cases gr)
    from Some [unfolded gr] show ?thesis
    proof (cases rule: matchGroupPlus_Some_cases)
      case (space c')
      then have "plusQualifies (c # cs) 1"
        by (simp add: plusQualifies_def)
      with Cons.prems(3) [of 1] have "\<not> 1 < i" by auto
      with Cons.prems(2) have "i = 1" by simp
      with space Some gr show ?thesis by simp
    next
      case (plus c')
      then have "plusQualifies (c # cs) 2"
        by (simp add: plusQualifies_def)
      with Cons.prems(3) [of 2] have "\<not> 2 < i" by auto
      moreover have "\<not> plusQualifies (c # cs) 1"
        using plus by (simp add: plusQualifies_def)
      with Cons.prems(1) have "i \<noteq> 1" by auto
      ultimately have "i = 2" using Cons.prems(2) by simp
      with plus Some gr show ?thesis by (simp add: numeral_2_eq_2)
    qed
  qed
qed

lemma firstQualifying_iff:
  "firstQualifying s i \<longleftrightarrow> plusQualifies s i \<and> (\<forall>j<i. \<not> plusQualifies s j)"
  by (auto simp: firstQualifying_def list_all_iff)

lemma noneQualifies_iff: "noneQualifies s \<longleftrightarrow> (\<forall>j. \<not> plusQualifies s j)"
  by (auto simp: noneQualifies_def list_all_iff plusQualifies_def)

lemma replacePlus_first:
  assumes "firstQualifying s i"
  shows "replacePlus s = take i s @ ''plus'' @ drop (Suc i) s"
proof (cases s)
  case Nil
  with assms show ?thesis by (simp add: firstQualifying_iff plusQualifies_def)
next
  case (Cons c rest)
  show ?thesis
  proof (cases "c = CHR ''+''")
    case True
    with Cons have "plusQualifies s 0" by (simp add: plusQualifies_def)
    with assms have "i = 0" by (auto simp: firstQualifying_iff)
    with True Cons show ?thesis by (simp add: replacePlus_def)
  next
    case False
    with Cons have z: "\<not> plusQualifies s 0" by (simp add: plusQualifies_def)
    have "i \<noteq> 0"
    proof
      assume "i = 0"
      with assms z show False by (simp add: firstQualifying_iff)
    qed
    with assms have "replaceRest s = take i s @ ''plus'' @ drop (Suc i) s"
      by (intro replaceRest_first) (auto simp: firstQualifying_iff)
    with False Cons show ?thesis by (simp add: replacePlus_def)
  qed
qed

lemma replacePlus_none:
  assumes "noneQualifies s"
  shows "replacePlus s = s"
proof (cases s)
  case Nil
  then show ?thesis by (simp add: replacePlus_def)
next
  case (Cons c rest)
  from assms have "\<not> plusQualifies s 0" by (simp add: noneQualifies_iff)
  with Cons have "c \<noteq> CHR ''+''" by (auto simp: plusQualifies_def)
  moreover have "replaceRest s = s"
    using assms by (intro replaceRest_none) (simp add: noneQualifies_iff)
  ultimately show ?thesis using Cons by (simp add: replacePlus_def)
qed

lemma first_or_none: "noneQualifies s \<or> (\<exists>i. firstQualifying s i)"
proof (cases "\<exists>i. plusQualifies s i")
  case True
  then have "plusQualifies s (LEAST i. plusQualifies s i)"
    by (metis LeastI)
  moreover have "\<forall>j<(LEAST i. plusQualifies s i). \<not> plusQualifies s j"
    using not_less_Least by blast
  ultimately show ?thesis
    using firstQualifying_iff by blast
next
  case False
  then show ?thesis by (simp add: noneQualifies_iff)
qed

lemma replaceRest_Nil_iff: "replaceRest u = [] \<longleftrightarrow> u = []"
  by (cases u) (auto split: option.splits elim: matchGroupPlus_Some_cases)

lemma hd_replaceRest: "hd (replaceRest u) = hd u"
  by (cases u) (auto split: option.splits elim: matchGroupPlus_Some_cases)

lemma replaceRest_keeps_shape:
  "\<not> sublist ''++'' u \<Longrightarrow>
     \<not> sublist ''++'' (replaceRest u) \<and> (u \<noteq> [] \<and> last u \<noteq> CHR ''+'' \<longrightarrow> last (replaceRest u) \<noteq> CHR ''+'')"
proof (induction u)
  case Nil
  then show ?case by simp
next
  case (Cons c cs)
  from Cons.prems have cs: "\<not> sublist ''++'' cs"
    by (simp add: sublist_Cons_right)
  show ?case
  proof (cases "matchGroupPlus (c # cs)")
    case None
    have "\<not> prefix ''++'' (c # replaceRest cs)"
      using Cons.prems hd_replaceRest [of cs] replaceRest_Nil_iff [of cs]
      by (cases cs; cases "replaceRest cs") (auto simp: sublist_Cons_right)
    with None Cons.IH [OF cs] show ?thesis
      by (auto simp: sublist_Cons_right replaceRest_Nil_iff)
  next
    case (Some gr)
    obtain g rest where gr: "gr = (g, rest)" by (cases gr)
    from Some [unfolded gr] show ?thesis
    proof (cases rule: matchGroupPlus_Some_cases)
      case (space c')
      with Cons.prems have "\<not> sublist ''++'' rest"
        by (simp add: sublist_Cons_right)
      with space Some gr show ?thesis
        by (auto simp: sublist_Cons_right)
    next
      case (plus c')
      with Cons.prems show ?thesis
        by (simp add: sublist_Cons_right)
    qed
  qed
qed

lemma replacePlus_keeps_shape:
  assumes "s \<noteq> []" "hd s \<noteq> CHR ''+''" "last s \<noteq> CHR ''+''" "\<not> sublist ''++'' s"
  shows "replacePlus s \<noteq> [] \<and> hd (replacePlus s) \<noteq> CHR ''+'' \<and> last (replacePlus s) \<noteq> CHR ''+''
     \<and> \<not> sublist ''++'' (replacePlus s)"
proof -
  from assms(1,2) have "replacePlus s = replaceRest s"
    by (cases s) (auto simp: replacePlus_def)
  with assms replaceRest_keeps_shape [OF assms(4)] show ?thesis
    by (simp add: replaceRest_Nil_iff hd_replaceRest)
qed

subsection \<open>Assignment to a property\<close>

lemma set_update_subset: "set (AList.update k v al) \<subseteq> insert (k, v) (set al)"
  by (induction al) auto

lemma set_takeWhile_Un_dropWhile: "set (takeWhile P xs) \<union> set (dropWhile P xs) = set xs"
  by (metis set_append takeWhile_dropWhile_id)

lemma set_insert_between:
  "set (takeWhile P xs @ x # dropWhile P xs) = insert x (set xs)"
  using set_takeWhile_Un_dropWhile [of P xs] by auto

lemma distinct_insert_between:
  "distinct (map f xs) \<Longrightarrow> f x \<notin> f ` set xs \<Longrightarrow>
     distinct (map f (takeWhile P xs @ x # dropWhile P xs))"
  by (induction xs) (auto dest: set_takeWhileD set_dropWhileD)

lemma objectSet_cases:
  obtains (proto) "k = ''__proto__''" "objectSet d k v = d"
  | (update) "k \<noteq> ''__proto__''" "k \<in> set (objectKeys d)" "objectSet d k v = AList.update k v d"
  | (append) "k \<noteq> ''__proto__''" "k \<notin> set (objectKeys d)" "objectSet d k v = d @ [(k, v)]"
  | (index) P where "k \<noteq> ''__proto__''" "k \<notin> set (objectKeys d)"
      "objectSet d k v = takeWhile P d @ (k, v) # dropWhile P d"
  by (cases "k = ''__proto__''"; cases "k \<in> set (objectKeys d)"; cases "arrayIndex k")
     (simp_all add: objectSet_def)

lemma set_objectSet: "set (objectSet d k v) \<subseteq> insert (k, v) (set d)"
proof (cases rule: objectSet_cases [of k d v])
  case update
  then show ?thesis by (simp add: set_update_subset)
next
  case (index P)
  have "set (objectSet d k v) = insert (k, v) (set d)"
    unfolding index(3) by (rule set_insert_between)
  then show ?thesis by simp
qed auto

lemma objectKeys_objectSet:
  "set (objectKeys (objectSet d k v)) =
     (if k = ''__proto__'' then set (objectKeys d) else insert k (set (objectKeys d)))"
proof (cases rule: objectSet_cases [of k d v])
  case update
  then show ?thesis by (auto simp: objectKeys_def dom_update)
next
  case (index P)
  have "set (objectSet d k v) = insert (k, v) (set d)"
    unfolding index(3) by (rule set_insert_between)
  with index(1) show ?thesis by (simp add: objectKeys_def)
qed (auto simp: objectKeys_def)

lemma distinct_objectSet:
  assumes "distinct (objectKeys d)"
  shows "distinct (objectKeys (objectSet d k v))"
proof (cases rule: objectSet_cases [of k d v])
  case update
  then show ?thesis using assms by (simp add: objectKeys_def distinct_update)
next
  case (index P)
  then show ?thesis using assms distinct_insert_between [of fst d "(k, v)" P]
    by (simp add: objectKeys_def)
qed (use assms in \<open>auto simp: objectKeys_def\<close>)

lemma update_present:
  "k \<notin> fst ` set xs \<Longrightarrow> AList.update k v (xs @ (k, v) # ys) = xs @ (k, v) # ys"
  by (induction xs) auto

lemma objectSet_idem: "objectSet (objectSet d k v) k v = objectSet d k v"
proof (cases "k = ''__proto__''")
  case True
  then show ?thesis by (simp add: objectSet_def)
next
  case False
  then have "k \<in> set (objectKeys (objectSet d k v))"
    by (simp add: objectKeys_objectSet)
  then have "objectSet (objectSet d k v) k v = AList.update k v (objectSet d k v)"
    using False by (simp add: objectSet_def)
  moreover have "AList.update k v (objectSet d k v) = objectSet d k v"
  proof (cases rule: objectSet_cases [of k d v])
    case update
    then show ?thesis by simp
  next
    case append
    then show ?thesis using update_present [of k d v "[]"] by (simp add: objectKeys_def)
  next
    case (index P)
    have "k \<notin> fst ` set (takeWhile P d)"
      using index(2) set_takeWhile_Un_dropWhile [of P d] by (auto simp: objectKeys_def)
    then show ?thesis using index(3) update_present [of k "takeWhile P d" v "dropWhile P d"]
      by simp
  qed (use False in simp)
  ultimately show ?thesis by simp
qed

lemma objectSet_empty: "k \<noteq> ''__proto__'' \<Longrightarrow> objectSet [] k v = [(k, v)]"
  by (simp add: objectSet_def objectKeys_def split: option.splits)

lemma filter_single_entry:
  "distinct (map fst d) \<Longrightarrow> (k, v) \<in> set d \<Longrightarrow> filter (\<lambda>e. fst e = k) d = [(k, v)]"
proof (induction d)
  case Nil
  then show ?case by simp
next
  case (Cons x d)
  show ?case
  proof (cases "fst x = k")
    case True
    with Cons.prems have "x = (k, v)" and "filter (\<lambda>e. fst e = k) d = []"
      by (auto simp: filter_empty_conv rev_image_eqI)
    with True show ?thesis by simp
  next
    case False
    with Cons show ?thesis by auto
  qed
qed

section \<open>Lemmas about the parser\<close>

subsection \<open>\<open>map\<close> with a callback that throws\<close>

lemma mapE_Inl: "x \<in> set xs \<Longrightarrow> f x = Inl e \<Longrightarrow> \<exists>e'. mapE f xs = Inl e'"
  by (induction xs) (auto split: sum.splits)

lemma mapE_total: "(\<And>x. x \<in> set xs \<Longrightarrow> \<exists>y. f x = Inr y) \<Longrightarrow> \<exists>ys. mapE f xs = Inr ys"
  by (induction xs) (fastforce split: sum.splits)+

subsection \<open>\<open>parseCombination\<close>\<close>

lemma reduceKeys_keys:
  "reduceKeys C opts ctx d toks = Inr d' \<Longrightarrow>
     set (objectKeys d') =
       set (objectKeys d) \<union>
         ({n. \<exists>tok\<in>set toks. standardizeKeyName C tok ctx = Inr n} - {''__proto__''})"
proof (induction toks arbitrary: d)
  case Nil
  then show ?case by simp
next
  case (Cons tok toks)
  from Cons.prems obtain n where n: "standardizeKeyName C tok ctx = Inr n"
    and rest: "reduceKeys C opts ctx (objectSet d n True) toks = Inr d'"
    by (auto split: sum.splits if_splits)
  have "{m. \<exists>t\<in>set (tok # toks). standardizeKeyName C t ctx = Inr m} =
          insert n {m. \<exists>t\<in>set toks. standardizeKeyName C t ctx = Inr m}"
    using n by auto
  with Cons.IH [OF rest] show ?case
    by (auto simp: objectKeys_objectSet split: if_splits)
qed

lemma reduceKeys_distinct:
  "reduceKeys C opts ctx d toks = Inr d' \<Longrightarrow> distinct (objectKeys d) \<Longrightarrow>
     distinct (objectKeys d')"
proof (induction toks arbitrary: d)
  case Nil
  then show ?case by simp
next
  case (Cons tok toks)
  from Cons.prems(1) obtain n where
    rest: "reduceKeys C opts ctx (objectSet d n True) toks = Inr d'"
    by (auto split: sum.splits if_splits)
  from Cons.IH [OF rest] Cons.prems(2) show ?case
    by (simp add: distinct_objectSet)
qed

lemma reduceKeys_values:
  "reduceKeys C opts ctx d toks = Inr d' \<Longrightarrow> \<forall>e\<in>set d. snd e \<Longrightarrow> \<forall>e\<in>set d'. snd e"
proof (induction toks arbitrary: d)
  case Nil
  then show ?case by simp
next
  case (Cons tok toks)
  from Cons.prems(1) obtain n where
    rest: "reduceKeys C opts ctx (objectSet d n True) toks = Inr d'"
    by (auto split: sum.splits if_splits)
  have "\<forall>e\<in>set (objectSet d n True). snd e"
    using Cons.prems(2) set_objectSet [of d n True] by auto
  with Cons.IH [OF rest] show ?case by blast
qed

lemma reduceKeys_invalid:
  "ensureValidKeys opts \<Longrightarrow> tok \<in> set toks \<Longrightarrow> standardizeKeyName C tok ctx = Inr n \<Longrightarrow>
     isValidKey C n = Inr False \<Longrightarrow> \<exists>e. reduceKeys C opts ctx d toks = Inl e"
  by (induction toks arbitrary: d) (auto split: sum.splits)

lemma reduceKeys_validity_unused:
  "\<not> ensureValidKeys opts \<Longrightarrow>
     reduceKeys (C\<lparr>isValidKey := v\<rparr>) opts ctx d toks = reduceKeys C opts ctx d toks"
  by (induction toks arbitrary: d) (auto split: sum.splits)

lemma reduceKeys_total:
  "\<not> ensureValidKeys opts \<Longrightarrow> (\<And>tok. tok \<in> set toks \<Longrightarrow> \<exists>n. standardizeKeyName C tok ctx = Inr n) \<Longrightarrow>
     \<exists>d'. reduceKeys C opts ctx d toks = Inr d'"
  by (induction toks arbitrary: d) (fastforce split: sum.splits)+

lemma reduceKeys_tag_unused:
  "reduceKeys C (opts\<lparr>keyEventType := t\<rparr>) ctx d toks = reduceKeys C opts ctx d toks"
  by (induction toks arbitrary: d) (auto split: sum.splits)

lemma reduceKeys_fold:
  "reduceKeys C opts ctx d toks = Inr d' \<Longrightarrow>
     d' = foldl (\<lambda>d n. objectSet d n True) d
            (List.map_filter
               (\<lambda>keyName. case standardizeKeyName C keyName ctx of
                             Inr n \<Rightarrow> Some n
                           | Inl e \<Rightarrow> None) toks)"
  by (induction toks arbitrary: d) (auto split: sum.splits if_splits)

lemma parseCombination_fold:
  "parseCombination C s opts = Inr d \<Longrightarrow>
     d = foldl (\<lambda>d n. objectSet d n True) [] (canonicalNames C s)"
  unfolding parseCombination_def canonicalNames_def by (rule reduceKeys_fold)

lemma set_map_filter_conv:
  "set (List.map_filter f xs) = {y. \<exists>x\<in>set xs. f x = Some y}"
  by (induction xs) (auto split: option.splits)

lemma set_canonicalNames:
  "set (canonicalNames C s) =
     {n. \<exists>tok\<in>set (keyNames s). standardizeKeyName C tok (modifiersOf s) = Inr n}"
proof -
  have "(case x of Inr n \<Rightarrow> Some n | Inl e \<Rightarrow> None) = Some y \<longleftrightarrow> x = Inr y"
    for x :: "js_error + string" and y
    by (cases x) auto
  then show ?thesis
    by (simp add: canonicalNames_def set_map_filter_conv)
qed

lemma parseCombination_keys:
  "parseCombination C s opts = Inr d \<Longrightarrow>
     set (objectKeys d) = set (canonicalNames C s) - {''__proto__''}"
  using reduceKeys_keys [of C opts "modifiersOf s" "[]" "keyNames s" d]
  by (simp add: parseCombination_def set_canonicalNames objectKeys_def)

lemma parseCombination_distinct:
  "parseCombination C s opts = Inr d \<Longrightarrow> distinct (objectKeys d)"
  using reduceKeys_distinct [of C opts "modifiersOf s" "[]" "keyNames s" d]
  by (simp add: parseCombination_def objectKeys_def)

lemma parseCombination_values:
  "parseCombination C s opts = Inr d \<Longrightarrow> \<forall>e\<in>set d. snd e"
  using reduceKeys_values [of C opts "modifiersOf s" "[]" "keyNames s" d]
  by (simp add: parseCombination_def)

lemma parseCombination_entry:
  assumes pc: "parseCombination C kc opts = Inr d"
    and tok: "keyName \<in> set (keyNames kc)"
    and std: "standardizeKeyName C keyName (modifiersOf kc) = Inr n"
    and n: "n \<noteq> ''__proto__''"
  shows "(n, True) \<in> set d"
proof -
  have "n \<in> set (canonicalNames C kc)"
    using tok std by (auto simp: set_canonicalNames)
  with n have "n \<in> set (objectKeys d)"
    by (simp add: parseCombination_keys [OF pc])
  then obtain v where "(n, v) \<in> set d"
    by (auto simp: objectKeys_def)
  moreover from this have "v = True"
    using parseCombination_values [OF pc] by auto
  ultimately show ?thesis by simp
qed

lemma parseCombination_total:
  assumes "\<not> ensureValidKeys opts" and "\<forall>k ctx. \<exists>m. standardizeKeyName C k ctx = Inr m"
  shows "\<exists>d. parseCombination C kc opts = Inr d"
  unfolding parseCombination_def using assms by (intro reduceKeys_total) auto

lemma parseCombination_validity_unused:
  "\<not> ensureValidKeys opts \<Longrightarrow>
     parseCombination (C\<lparr>isValidKey := v\<rparr>) kc opts = parseCombination C kc opts"
  by (simp add: parseCombination_def reduceKeys_validity_unused)

lemma parseCombination_tag_unused:
  "parseCombination C s (opts\<lparr>keyEventType := t\<rparr>) = parseCombination C s opts"
  by (simp add: parseCombination_def reduceKeys_tag_unused)

lemma keyNames_plus: "keyNames ''+'' = [''plus'']"
  by (simp add: keyNames_def replacePlus_def)

lemma modifiersOf_plus: "modifiersOf ''+'' = \<lparr>shift = False, alt = False\<rparr>"
  by (simp add: modifiersOf_def shiftPressed_def altPressed_def indexOf_def regExpToString_def)

subsection \<open>\<open>parse\<close>\<close>

lemma keyCombinationsArray_nonempty [simp]: "keyCombinationsArray C s \<noteq> []"
  by (simp add: keyCombinationsArray_def)

lemma parse_cases:
  obtains (fail) e where "parseTry C (keyCombinationsArray C s) opts = Inl e"
      "parse C s opts = \<lparr>sequence = None, combination = None\<rparr>"
  | (ok) ids d i where
      "mapE (combinationId C opts) (butlast (keyCombinationsArray C s)) = Inr ids"
      "parseCombination C (last (keyCombinationsArray C s)) opts = Inr d"
      "normalizedCombinationId C d = Inr i"
      "parse C s opts =
         \<lparr>sequence = Some
            \<lparr>prefix_s = joinWith '' '' ids,
             size_s = length (butlast (keyCombinationsArray C s)) + 1\<rparr>,
          combination = Some
            \<lparr>id_c = i, keyDictionary = d, keyEventType_c = keyEventType opts,
             size_c = length (objectKeys d)\<rparr>\<rparr>"
      "parseTry C (keyCombinationsArray C s) opts = Inr (parse C s opts)"
proof (cases "mapE (combinationId C opts) (butlast (keyCombinationsArray C s))")
  case (Inl e)
  then show ?thesis using fail [of e] by (simp add: parse_def parseTry_def Let_def)
next
  case ids: (Inr ids)
  show ?thesis
  proof (cases "parseCombination C (last (keyCombinationsArray C s)) opts")
    case (Inl e)
    then show ?thesis using ids fail [of e] by (simp add: parse_def parseTry_def Let_def)
  next
    case d: (Inr d)
    show ?thesis
    proof (cases "normalizedCombinationId C d")
      case (Inl e)
      then show ?thesis using ids d fail [of e] by (simp add: parse_def parseTry_def Let_def)
    next
      case (Inr i)
      then show ?thesis using ids d ok [of ids d i] by (simp add: parse_def parseTry_def Let_def)
    qed
  qed
qed

lemma parse_combination_fields:
  assumes "combination (parse C s opts) = Some cb"
  shows "parseCombination C (last (keyCombinationsArray C s)) opts = Inr (keyDictionary cb)"
    and "normalizedCombinationId C (keyDictionary cb) = Inr (id_c cb)"
    and "size_c cb = length (objectKeys (keyDictionary cb))"
    and "keyEventType_c cb = keyEventType opts"
proof -
  have "parseCombination C (last (keyCombinationsArray C s)) opts = Inr (keyDictionary cb)
      \<and> normalizedCombinationId C (keyDictionary cb) = Inr (id_c cb)
      \<and> size_c cb = length (objectKeys (keyDictionary cb))
      \<and> keyEventType_c cb = keyEventType opts"
  proof (cases rule: parse_cases [of C s opts])
    case (fail e)
    with assms show ?thesis by simp
  next
    case (ok ids d i)
    with assms have "cb = \<lparr>id_c = i, keyDictionary = d, keyEventType_c = keyEventType opts,
        size_c = length (objectKeys d)\<rparr>"
      by simp
    with ok(2,3) show ?thesis by simp
  qed
  then show "parseCombination C (last (keyCombinationsArray C s)) opts = Inr (keyDictionary cb)"
    and "normalizedCombinationId C (keyDictionary cb) = Inr (id_c cb)"
    and "size_c cb = length (objectKeys (keyDictionary cb))"
    and "keyEventType_c cb = keyEventType opts"
    by simp_all
qed

lemma combinationId_tag_unused:
  "combinationId C (opts\<lparr>keyEventType := t\<rparr>) = combinationId C opts"
  by (rule ext) (simp add: combinationId_def parseCombination_tag_unused)

lemma parseTry_tag:
  "parseTry C combos (opts\<lparr>keyEventType := t\<rparr>) =
     map_sum id
       (\<lambda>r. r\<lparr>combination := map_option (\<lambda>cb. cb\<lparr>keyEventType_c := t\<rparr>) (combination r)\<rparr>)
       (parseTry C combos opts)"
  by (simp add: parseTry_def Let_def combinationId_tag_unused parseCombination_tag_unused
      split: sum.splits)

lemma combinationId_Inl_iff:
  "combinationId C opts kc = Inl e \<longleftrightarrow>
     parseCombination C kc opts = Inl e
     \<or> (\<exists>d. parseCombination C kc opts = Inr d \<and> normalizedCombinationId C d = Inl e)"
  by (auto simp: combinationId_def split: sum.splits)

lemma parseTry_fails_iff:
  assumes "combos \<noteq> []"
  shows "(\<exists>e. parseTry C combos opts = Inl e) \<longleftrightarrow>
           (\<exists>kc\<in>set combos. \<exists>e. combinationId C opts kc = Inl e)"
proof
  assume "\<exists>e. parseTry C combos opts = Inl e"
  then obtain e where e: "parseTry C combos opts = Inl e" ..
  show "\<exists>kc\<in>set combos. \<exists>e. combinationId C opts kc = Inl e"
  proof (rule ccontr)
    assume "\<not> (\<exists>kc\<in>set combos. \<exists>e. combinationId C opts kc = Inl e)"
    then have all: "\<And>kc. kc \<in> set combos \<Longrightarrow> \<exists>i. combinationId C opts kc = Inr i"
      by (metis sum.exhaust)
    have "\<exists>ids. mapE (combinationId C opts) (butlast combos) = Inr ids"
      by (rule mapE_total) (auto dest: in_set_butlastD intro: all)
    moreover have "\<exists>i. combinationId C opts (last combos) = Inr i"
      using all assms by simp
    ultimately show False
      using e by (auto simp: parseTry_def Let_def combinationId_def split: sum.splits)
  qed
next
  assume "\<exists>kc\<in>set combos. \<exists>e. combinationId C opts kc = Inl e"
  then obtain kc e where kc: "kc \<in> set combos" and e: "combinationId C opts kc = Inl e"
    by blast
  from assms have "set combos = set (butlast combos @ [last combos])"
    by simp
  with kc have "kc \<in> set (butlast combos) \<or> kc = last combos"
    by (simp only: set_append) auto
  then show "\<exists>e. parseTry C combos opts = Inl e"
  proof
    assume "kc \<in> set (butlast combos)"
    then obtain e' where "mapE (combinationId C opts) (butlast combos) = Inl e'"
      using mapE_Inl [of kc "butlast combos" "combinationId C opts" e] e by blast
    then show ?thesis by (simp add: parseTry_def Let_def)
  next
    assume "kc = last combos"
    with e show ?thesis
      by (auto simp: parseTry_def Let_def combinationId_def split: sum.splits)
  qed
qed

lemma parse_fails_iff:
  "parse C s opts = \<lparr>sequence = None, combination = None\<rparr> \<longleftrightarrow>
     (\<exists>kc\<in>set (keyCombinationsArray C s). \<exists>e. combinationId C opts kc = Inl e)"
  using parseTry_fails_iff [of "keyCombinationsArray C s" C opts]
  by (cases rule: parse_cases [of C s opts]) auto

lemma parseTry_validity_unused:
  assumes "\<not> ensureValidKeys opts"
  shows "parseTry (C\<lparr>isValidKey := v\<rparr>) combos opts = parseTry C combos opts"
proof -
  have "combinationId (C\<lparr>isValidKey := v\<rparr>) opts = combinationId C opts"
    using assms
    by (intro ext) (simp add: combinationId_def parseCombination_validity_unused split: sum.splits)
  then show ?thesis
    using assms
    by (simp add: parseTry_def Let_def parseCombination_validity_unused split: sum.splits)
qed

lemma parse_validity_unused:
  "\<not> ensureValidKeys opts \<Longrightarrow> parse (C\<lparr>isValidKey := v\<rparr>) s opts = parse C s opts"
  by (simp add: parse_def keyCombinationsArray_def parseTry_validity_unused)

lemma sample_orderIndependent: "orderIndependent (normalizedCombinationId sample)"
  unfolding orderIndependent_def
proof (intro allI impI)
  fix d d' :: key_dictionary
  assume a: "distinct (objectKeys d) \<and> distinct (objectKeys d')
      \<and> set (objectKeys d) = set (objectKeys d')"
  have "sort (objectKeys d) = sort (objectKeys d')"
    using a by (intro sorted_distinct_set_unique) simp_all
  then show "normalizedCombinationId sample d = normalizedCombinationId sample d'"
    by (simp add: sample_def sampleNormalizedId_def)
qed

section \<open>Modifier context\<close>

text \<open>
  C10. The shift and alt tests search the combination string for the string conversion
  of a regular expression. So the shift flag handed to \<open>standardizeKeyName\<close> holds exactly
  when the string contains the characters \<open>/[sS]hift/\<close>, and the alt flag exactly when it
  contains \<open>/[aA]lt/\<close>; with neither, every key name of the combination is standardized
  under \<open>{ shift: false, alt: false }\<close>, as for \<open>shift+a\<close> and \<open>alt+b\<close>.
\<close>

theorem modifier_context_is_literal_search:
  "shift (modifiersOf s) = sublist ''/[sS]hift/'' s
   \<and> alt (modifiersOf s) = sublist ''/[aA]lt/'' s
   \<and> (\<not> sublist ''/[sS]hift/'' s \<and> \<not> sublist ''/[aA]lt/'' s \<longrightarrow>
        modifiersOf s = \<lparr>shift = False, alt = False\<rparr>
        \<and> parseCombination C s opts =
              reduceKeys C opts \<lparr>shift = False, alt = False\<rparr> [] (keyNames s))"
proof -
  have eq: "modifiersOf s = \<lparr>shift = sublist ''/[sS]hift/'' s, alt = sublist ''/[aA]lt/'' s\<rparr>"
    using indexOf_sublist [of s "''/[sS]hift/''"] indexOf_sublist [of s "''/[aA]lt/''"]
    by (simp add: modifiersOf_def shiftPressed_def altPressed_def regExpToString_def)
  show ?thesis
    unfolding parseCombination_def eq by simp
qed

theorem modifier_context_is_literal_search_witness:
  "\<not> sublist ''/[sS]hift/'' ''shift+a'' \<and> \<not> sublist ''/[aA]lt/'' ''shift+a''
   \<and> modifiersOf ''shift+a'' = \<lparr>shift = False, alt = False\<rparr>
   \<and> parseCombination sample ''shift+a'' \<lparr>keyEventType = (0 :: nat), ensureValidKeys = True\<rparr> =
        reduceKeys sample \<lparr>keyEventType = (0 :: nat), ensureValidKeys = True\<rparr>
          \<lparr>shift = False, alt = False\<rparr> [] [''shift'', ''a'']"
proof -
  have a: "\<not> sublist ''/[sS]hift/'' ''shift+a''" by code_simp
  have b: "\<not> sublist ''/[aA]lt/'' ''shift+a''" by code_simp
  have k: "keyNames ''shift+a'' = [''shift'', ''a'']" by code_simp
  show ?thesis
    using a b k
      modifier_context_is_literal_search [of "''shift+a''" sample
        "\<lparr>keyEventType = (0 :: nat), ensureValidKeys = True\<rparr>"]
    by simp
qed

text \<open>
  C2 says that the shift (alt) flag is true exactly when the combination string contains
  the word \<open>shift\<close> (\<open>alt\<close>), whatever the case of its letters. The code departs from
  it: \<open>shift+a\<close>, \<open>Shift+a\<close> and \<open>alt+b\<close> contain the words, and the flags computed
  for them are false.
\<close>

theorem shift_and_alt_words_are_not_detected:
  "containsIgnoringCase ''shift'' ''shift+a'' \<and> shift (modifiersOf ''shift+a'') = False
   \<and> containsIgnoringCase ''shift'' ''Shift+a'' \<and> shift (modifiersOf ''Shift+a'') = False
   \<and> containsIgnoringCase ''alt'' ''alt+b'' \<and> alt (modifiersOf ''alt+b'') = False"
  by code_simp

section \<open>The result records\<close>

text \<open>
  C9. When \<open>parse\<close> returns a combination, its \<open>keyEventType\<close> is the caller's
  \<open>options.keyEventType\<close>. The parser does not look at the value: with another value in
  the options the result is the same but for that field.
\<close>

theorem keyEventType_copied_verbatim:
  "(combination (parse C s opts) = Some cb \<longrightarrow> keyEventType_c cb = keyEventType opts)
   \<and> parse C s (opts\<lparr>keyEventType := t\<rparr>) =
       (parse C s opts)
         \<lparr>combination := map_option (\<lambda>cb. cb\<lparr>keyEventType_c := t\<rparr>) (combination (parse C s opts))\<rparr>"
proof
  show "combination (parse C s opts) = Some cb \<longrightarrow> keyEventType_c cb = keyEventType opts"
    by (cases rule: parse_cases [of C s opts]) auto
  show "parse C s (opts\<lparr>keyEventType := t\<rparr>) =
       (parse C s opts)
         \<lparr>combination := map_option (\<lambda>cb. cb\<lparr>keyEventType_c := t\<rparr>) (combination (parse C s opts))\<rparr>"
    by (cases "parseTry C (keyCombinationsArray C s) opts") (simp_all add: parse_def parseTry_tag)
qed

theorem keyEventType_copied_verbatim_witness:
  "combination (parse sample ''ctrl+a b shift+c'' \<lparr>keyEventType = ''keydown'', ensureValidKeys = True\<rparr>) =
     Some \<lparr>id_c = ''c+shift'', keyDictionary = [(''shift'', True), (''c'', True)],
           keyEventType_c = ''keydown'', size_c = 2\<rparr>
   \<and> keyEventType_c
        \<lparr>id_c = ''c+shift'', keyDictionary = [(''shift'', True), (''c'', True)],
         keyEventType_c = ''keydown'', size_c = 2\<rparr> =
       keyEventType \<lparr>keyEventType = ''keydown'', ensureValidKeys = True\<rparr>"
proof -
  have ev: "combination (parse sample ''ctrl+a b shift+c'' \<lparr>keyEventType = ''keydown'', ensureValidKeys = True\<rparr>) =
     Some \<lparr>id_c = ''c+shift'', keyDictionary = [(''shift'', True), (''c'', True)],
           keyEventType_c = ''keydown'', size_c = 2\<rparr>"
    by code_simp
  show ?thesis
    using ev
      keyEventType_copied_verbatim [of sample "''ctrl+a b shift+c''"
        "\<lparr>keyEventType = ''keydown'', ensureValidKeys = True\<rparr>"
        "\<lparr>id_c = ''c+shift'', keyDictionary = [(''shift'', True), (''c'', True)],
           keyEventType_c = ''keydown'', size_c = 2\<rparr>" "''keyup''"]
    by blast
qed

text \<open>
  C1. \<open>parse\<close> returns \<open>{ sequence: null, combination: null }\<close> exactly when an error,
  of whatever kind, is thrown while a combination of the sequence is parsed (by
  \<open>parseCombination\<close>, or by \<open>normalizedCombinationId\<close> on its dictionary). Every result
  is either that one or has both fields populated; the two fields are null together.
\<close>

theorem parse_failure_is_uniform:
  "((\<exists>kc\<in>set (keyCombinationsArray C s). \<exists>e.
        parseCombination C kc opts = Inl e
        \<or> (\<exists>d. parseCombination C kc opts = Inr d \<and> normalizedCombinationId C d = Inl e))
     \<longleftrightarrow> parse C s opts = \<lparr>sequence = None, combination = None\<rparr>)
   \<and> (parse C s opts = \<lparr>sequence = None, combination = None\<rparr>
        \<or> (\<exists>sq cb. parse C s opts = \<lparr>sequence = Some sq, combination = Some cb\<rparr>))
   \<and> (sequence (parse C s opts) = None \<longleftrightarrow> combination (parse C s opts) = None)"
proof (intro conjI)
  show "(\<exists>kc\<in>set (keyCombinationsArray C s). \<exists>e.
        parseCombination C kc opts = Inl e
        \<or> (\<exists>d. parseCombination C kc opts = Inr d \<and> normalizedCombinationId C d = Inl e))
     \<longleftrightarrow> parse C s opts = \<lparr>sequence = None, combination = None\<rparr>"
    unfolding parse_fails_iff by (simp add: combinationId_Inl_iff)
  show "parse C s opts = \<lparr>sequence = None, combination = None\<rparr>
        \<or> (\<exists>sq cb. parse C s opts = \<lparr>sequence = Some sq, combination = Some cb\<rparr>)"
    by (cases rule: parse_cases [of C s opts]) auto
  show "sequence (parse C s opts) = None \<longleftrightarrow> combination (parse C s opts) = None"
    by (cases rule: parse_cases [of C s opts]) auto
qed

theorem parse_failure_is_uniform_witness:
  "''foobar+a'' \<in> set (keyCombinationsArray sample ''a foobar+a b'')
   \<and> parseCombination sample ''foobar+a'' \<lparr>keyEventType = (0 :: nat), ensureValidKeys = True\<rparr> =
       Inl InvalidKeyNameError
   \<and> parse sample ''a foobar+a b'' \<lparr>keyEventType = (0 :: nat), ensureValidKeys = True\<rparr> =
       \<lparr>sequence = None, combination = None\<rparr>
   \<and> parseCombination (sample\<lparr>normalizedCombinationId := throwingNormalizedId\<rparr>) ''a''
         \<lparr>keyEventType = (0 :: nat), ensureValidKeys = False\<rparr> = Inr [(''a'', True)]
   \<and> normalizedCombinationId (sample\<lparr>normalizedCombinationId := throwingNormalizedId\<rparr>)
         [(''a'', True)] = Inl (OtherError ''TypeError'')
   \<and> parse (sample\<lparr>normalizedCombinationId := throwingNormalizedId\<rparr>) ''a''
         \<lparr>keyEventType = (0 :: nat), ensureValidKeys = False\<rparr> =
       \<lparr>sequence = None, combination = None\<rparr>"
proof -
  let ?on = "\<lparr>keyEventType = (0 :: nat), ensureValidKeys = True\<rparr>"
  let ?off = "\<lparr>keyEventType = (0 :: nat), ensureValidKeys = False\<rparr>"
  let ?T = "sample\<lparr>normalizedCombinationId := throwingNormalizedId\<rparr>"
  have kc: "''foobar+a'' \<in> set (keyCombinationsArray sample ''a foobar+a b'')"
    by code_simp
  have pc: "parseCombination sample ''foobar+a'' ?on = Inl InvalidKeyNameError"
    by code_simp
  have p1: "parse sample ''a foobar+a b'' ?on = \<lparr>sequence = None, combination = None\<rparr>"
    using kc pc parse_failure_is_uniform [of sample "''a foobar+a b''" ?on] by blast
  have kc2: "''a'' \<in> set (keyCombinationsArray ?T ''a'')"
    by code_simp
  have pc2: "parseCombination ?T ''a'' ?off = Inr [(''a'', True)]"
    by code_simp
  have n2: "normalizedCombinationId ?T [(''a'', True)] = Inl (OtherError ''TypeError'')"
    by code_simp
  have p2: "parse ?T ''a'' ?off = \<lparr>sequence = None, combination = None\<rparr>"
    using kc2 pc2 n2 parse_failure_is_uniform [of ?T "''a''" ?off] by blast
  show ?thesis
    using kc pc p1 pc2 n2 p2 by simp
qed

text \<open>
  C7. When \<open>parse\<close> returns a sequence, its \<open>size\<close> is the number of combination
  substrings of the whitespace-normalized input: the number of non-terminal combinations
  plus one, which is the number of spaces of the normalized input plus one. These
  substrings contain no space and joined by single spaces they give the normalized input.
  When the normalized input has no space, \<open>prefix\<close> is the empty string.
\<close>

theorem sequence_size_counts_combinations:
  "(sequence (parse C s opts) = Some sq \<longrightarrow>
      size_s sq = length (keyCombinationsArray C s)
      \<and> size_s sq = Suc (count_list (stripSuperfluousWhitespace C s) CHR '' '')
      \<and> size_s sq = length (butlast (keyCombinationsArray C s)) + 1
      \<and> (CHR '' '' \<notin> set (stripSuperfluousWhitespace C s) \<longrightarrow> prefix_s sq = []))
   \<and> joinWith '' '' (keyCombinationsArray C s) = stripSuperfluousWhitespace C s
   \<and> (\<forall>kc\<in>set (keyCombinationsArray C s). CHR '' '' \<notin> set kc)"
proof (intro conjI impI)
  assume sq: "sequence (parse C s opts) = Some sq"
  show n: "size_s sq = length (butlast (keyCombinationsArray C s)) + 1"
    using sq by (cases rule: parse_cases [of C s opts]) auto
  then show l: "size_s sq = length (keyCombinationsArray C s)"
    by (cases "keyCombinationsArray C s" rule: rev_cases) simp_all
  then show "size_s sq = Suc (count_list (stripSuperfluousWhitespace C s) CHR '' '')"
    by (simp add: keyCombinationsArray_def length_splitOn)
  assume "CHR '' '' \<notin> set (stripSuperfluousWhitespace C s)"
  then have "keyCombinationsArray C s = [stripSuperfluousWhitespace C s]"
    by (simp add: keyCombinationsArray_def splitOn_no_sep_id)
  then show "prefix_s sq = []"
    using sq by (cases rule: parse_cases [of C s opts]) auto
next
  show "joinWith '' '' (keyCombinationsArray C s) = stripSuperfluousWhitespace C s"
    by (simp add: keyCombinationsArray_def joinWith_splitOn)
  show "\<forall>kc\<in>set (keyCombinationsArray C s). CHR '' '' \<notin> set kc"
    by (auto simp: keyCombinationsArray_def dest: splitOn_no_sep)
qed

theorem sequence_size_counts_combinations_witness:
  "sequence (parse sample ''  a+b   c  '' \<lparr>keyEventType = (0 :: nat), ensureValidKeys = True\<rparr>) =
     Some \<lparr>prefix_s = ''a+b'', size_s = 2\<rparr>
   \<and> stripSuperfluousWhitespace sample ''  a+b   c  '' = ''a+b c''
   \<and> size_s \<lparr>prefix_s = ''a+b'', size_s = 2\<rparr> =
       Suc (count_list (stripSuperfluousWhitespace sample ''  a+b   c  '') CHR '' '')
   \<and> sequence (parse sample '' esc '' \<lparr>keyEventType = (0 :: nat), ensureValidKeys = True\<rparr>) =
     Some \<lparr>prefix_s = [], size_s = 1\<rparr>
   \<and> CHR '' '' \<notin> set (stripSuperfluousWhitespace sample '' esc '')
   \<and> prefix_s \<lparr>prefix_s = [], size_s = 1\<rparr> = []"
proof -
  let ?on = "\<lparr>keyEventType = (0 :: nat), ensureValidKeys = True\<rparr>"
  have e1: "sequence (parse sample ''  a+b   c  '' ?on) = Some \<lparr>prefix_s = ''a+b'', size_s = 2\<rparr>"
    by code_simp
  have s1: "stripSuperfluousWhitespace sample ''  a+b   c  '' = ''a+b c''"
    by code_simp
  have e2: "sequence (parse sample '' esc '' ?on) = Some \<lparr>prefix_s = [], size_s = 1\<rparr>"
    by code_simp
  have s2: "CHR '' '' \<notin> set (stripSuperfluousWhitespace sample '' esc '')"
    by code_simp
  show ?thesis
    using e1 s1 e2 s2
      sequence_size_counts_combinations [of sample "''  a+b   c  ''" ?on
        "\<lparr>prefix_s = ''a+b'', size_s = 2\<rparr>"]
      sequence_size_counts_combinations [of sample "'' esc ''" ?on
        "\<lparr>prefix_s = [], size_s = 1\<rparr>"]
    by simp
qed

text \<open>
  C6 says that key names with the same canonical name collapse to a single entry with
  value \<open>true\<close>. The code departs from it at the name \<open>__proto__\<close>: the assignment
  \<open>keyDictionary['__proto__'] = true\<close> on a plain object stores nothing, so the two key
  names of \<open>__proto__+__proto__\<close> leave no entry at all; the dictionary is empty and
  \<open>size\<close> is 0.
\<close>

theorem proto_duplicates_leave_no_entry:
  "keyNames ''__proto__+__proto__'' = [''__proto__'', ''__proto__'']
   \<and> canonicalNames sample (last (keyCombinationsArray sample ''__proto__+__proto__'')) =
       [''__proto__'', ''__proto__'']
   \<and> combination (parse sample ''__proto__+__proto__''
         \<lparr>keyEventType = (0 :: nat), ensureValidKeys = False\<rparr>) =
       Some \<lparr>id_c = [], keyDictionary = [], keyEventType_c = 0, size_c = 0\<rparr>
   \<and> filter (\<lambda>e. fst e = ''__proto__'')
         (foldl (\<lambda>d n. objectSet d n True) [] [''__proto__'', ''__proto__'']) = []"
  by code_simp

text \<open>
  What holds of the code for C6, for every name but that one. When \<open>parse\<close> returns a
  combination, its \<open>size\<close> is the number of keys of its \<open>keyDictionary\<close>, and these keys
  are distinct. The dictionary is the empty object after the assignments
  \<open>keyDictionary[name] = true\<close> for the canonical names of the terminal combination in
  order; its keys are these names other than \<open>__proto__\<close>, each with one entry, whose
  value is \<open>true\<close>, however many key names standardize to it. Assigning the same key
  twice is the same as assigning it once.
\<close>

theorem combination_size_is_key_count:
  "(combination (parse C s opts) = Some cb \<longrightarrow>
      size_c cb = length (objectKeys (keyDictionary cb))
      \<and> distinct (objectKeys (keyDictionary cb))
      \<and> size_c cb = card (set (objectKeys (keyDictionary cb)))
      \<and> keyDictionary cb =
          foldl (\<lambda>d n. objectSet d n True) [] (canonicalNames C (last (keyCombinationsArray C s)))
      \<and> set (objectKeys (keyDictionary cb)) =
          set (canonicalNames C (last (keyCombinationsArray C s))) - {''__proto__''}
      \<and> (\<forall>n\<in>set (canonicalNames C (last (keyCombinationsArray C s))).
            n \<noteq> ''__proto__'' \<longrightarrow> filter (\<lambda>e. fst e = n) (keyDictionary cb) = [(n, True)]))
   \<and> objectSet (objectSet d k True) k True = objectSet d k True"
proof (intro conjI impI ballI)
  assume cb: "combination (parse C s opts) = Some cb"
  note pc = parse_combination_fields(1) [OF cb] and sz = parse_combination_fields(3) [OF cb]
  show "size_c cb = length (objectKeys (keyDictionary cb))"
    by (rule sz)
  show dist: "distinct (objectKeys (keyDictionary cb))"
    using pc by (rule parseCombination_distinct)
  then show "size_c cb = card (set (objectKeys (keyDictionary cb)))"
    using sz by (simp add: distinct_card)
  show "keyDictionary cb =
          foldl (\<lambda>d n. objectSet d n True) [] (canonicalNames C (last (keyCombinationsArray C s)))"
    using pc by (rule parseCombination_fold)
  show keys: "set (objectKeys (keyDictionary cb)) =
          set (canonicalNames C (last (keyCombinationsArray C s))) - {''__proto__''}"
    using pc by (rule parseCombination_keys)
  fix n
  assume "n \<in> set (canonicalNames C (last (keyCombinationsArray C s)))" and "n \<noteq> ''__proto__''"
  with keys have "n \<in> set (objectKeys (keyDictionary cb))"
    by simp
  then obtain v where "(n, v) \<in> set (keyDictionary cb)"
    by (auto simp: objectKeys_def)
  moreover from this have "v = True"
    using parseCombination_values [OF pc] by auto
  ultimately show "filter (\<lambda>e. fst e = n) (keyDictionary cb) = [(n, True)]"
    using dist filter_single_entry [of "keyDictionary cb" n True] by (simp add: objectKeys_def)
next
  show "objectSet (objectSet d k True) k True = objectSet d k True"
    by (rule objectSet_idem)
qed

theorem combination_size_is_key_count_witness:
  "combination (parse sample ''a+esc+a+Escape'' \<lparr>keyEventType = (0 :: nat), ensureValidKeys = True\<rparr>) =
     Some \<lparr>id_c = ''Escape+a'', keyDictionary = [(''a'', True), (''Escape'', True)],
           keyEventType_c = 0, size_c = 2\<rparr>
   \<and> canonicalNames sample (last (keyCombinationsArray sample ''a+esc+a+Escape'')) =
       [''a'', ''Escape'', ''a'', ''Escape'']
   \<and> card (set (objectKeys [(''a'', True), (''Escape'', True)])) = 2
   \<and> filter (\<lambda>e. fst e = ''Escape'') [(''a'', True), (''Escape'', True)] = [(''Escape'', True)]"
proof -
  let ?on = "\<lparr>keyEventType = (0 :: nat), ensureValidKeys = True\<rparr>"
  let ?cb = "\<lparr>id_c = ''Escape+a'', keyDictionary = [(''a'', True), (''Escape'', True)],
           keyEventType_c = (0 :: nat), size_c = 2\<rparr>"
  have ev: "combination (parse sample ''a+esc+a+Escape'' ?on) = Some ?cb"
    by code_simp
  have cn: "canonicalNames sample (last (keyCombinationsArray sample ''a+esc+a+Escape'')) =
       [''a'', ''Escape'', ''a'', ''Escape'']"
    by code_simp
  note th = combination_size_is_key_count [of sample "''a+esc+a+Escape''" ?on ?cb,
      THEN conjunct1, rule_format, OF ev]
  from th have "size_c ?cb = card (set (objectKeys (keyDictionary ?cb)))"
    by blast
  then have c: "card (set (objectKeys [(''a'', True), (''Escape'', True)])) = 2"
    by simp
  have "''Escape'' \<in> set (canonicalNames sample (last (keyCombinationsArray sample ''a+esc+a+Escape'')))"
    by (simp add: cn)
  with th have "''Escape'' \<noteq> ''__proto__'' \<longrightarrow>
      filter (\<lambda>e. fst e = ''Escape'') (keyDictionary ?cb) = [(''Escape'', True)]"
    by blast
  then have f: "filter (\<lambda>e. fst e = ''Escape'') [(''a'', True), (''Escape'', True)] = [(''Escape'', True)]"
    by simp
  show ?thesis
    using ev cn c f by blast
qed

section \<open>Validation of key names\<close>

text \<open>
  C3 says that with \<open>ensureValidKeys\<close> false the canonical name of an unrecognized key
  name is inserted into the key dictionary. The code departs from it at the name
  \<open>__proto__\<close>: the validity check rejects it, with \<open>ensureValidKeys\<close> true \<open>parse\<close>
  fails, and with \<open>ensureValidKeys\<close> false \<open>parse\<close> succeeds, but the assignment
  \<open>keyDictionary['__proto__'] = true\<close> on a plain object stores nothing and the returned
  dictionary is empty.
\<close>

theorem proto_key_is_not_inserted:
  "''__proto__'' \<in> set (keyCombinationsArray sample ''__proto__'')
   \<and> ''__proto__'' \<in> set (keyNames ''__proto__'')
   \<and> standardizeKeyName sample ''__proto__'' (modifiersOf ''__proto__'') = Inr ''__proto__''
   \<and> isValidKey sample ''__proto__'' = Inr False
   \<and> parse sample ''__proto__'' \<lparr>keyEventType = (0 :: nat), ensureValidKeys = True\<rparr> =
       \<lparr>sequence = None, combination = None\<rparr>
   \<and> parse sample ''__proto__'' \<lparr>keyEventType = (0 :: nat), ensureValidKeys = False\<rparr> =
       \<lparr>sequence = Some \<lparr>prefix_s = [], size_s = 1\<rparr>,
        combination = Some
          \<lparr>id_c = [], keyDictionary = [], keyEventType_c = 0, size_c = 0\<rparr>\<rparr>
   \<and> ''__proto__'' \<notin> set (objectKeys (objectSet [] ''__proto__'' True))"
  by code_simp

text \<open>
  What holds of the code for C3, for every name but that one. Let a combination of the
  sequence have a key name whose canonical name the validity check rejects. With
  \<open>ensureValidKeys\<close> true, \<open>parse\<close> returns \<open>{ sequence: null, combination: null }\<close>. With
  \<open>ensureValidKeys\<close> false the validity check is not called (the result is the same
  with any other check, one that always throws included); and when \<open>standardizeKeyName\<close>
  and \<open>normalizedCombinationId\<close> do not throw, \<open>parse\<close> succeeds and the dictionary of
  that combination is the empty object after the assignments
  \<open>keyDictionary[name] = true\<close> for its canonical names in order, this one among them;
  so it holds the canonical name with value \<open>true\<close> unless the name is \<open>__proto__\<close>.
\<close>

theorem unrecognized_key_fails_only_under_validation:
  assumes kc: "kc \<in> set (keyCombinationsArray C s)"
    and tok: "keyName \<in> set (keyNames kc)"
    and std: "standardizeKeyName C keyName (modifiersOf kc) = Inr n"
    and inv: "isValidKey C n = Inr False"
  shows "parse C s (opts\<lparr>ensureValidKeys := True\<rparr>) = \<lparr>sequence = None, combination = None\<rparr>
    \<and> parse (C\<lparr>isValidKey := v\<rparr>) s (opts\<lparr>ensureValidKeys := False\<rparr>) =
        parse C s (opts\<lparr>ensureValidKeys := False\<rparr>)
    \<and> ((\<forall>k ctx. \<exists>m. standardizeKeyName C k ctx = Inr m)
          \<and> (\<forall>d. \<exists>i. normalizedCombinationId C d = Inr i) \<longrightarrow>
        (\<exists>sq cb. parse C s (opts\<lparr>ensureValidKeys := False\<rparr>) =
                   \<lparr>sequence = Some sq, combination = Some cb\<rparr>
                 \<and> (kc = last (keyCombinationsArray C s) \<and> n \<noteq> ''__proto__'' \<longrightarrow>
                      (n, True) \<in> set (keyDictionary cb)))
        \<and> (\<exists>d. parseCombination C kc (opts\<lparr>ensureValidKeys := False\<rparr>) = Inr d
                 \<and> d = foldl (\<lambda>d m. objectSet d m True) [] (canonicalNames C kc)
                 \<and> n \<in> set (canonicalNames C kc)
                 \<and> (n \<noteq> ''__proto__'' \<longrightarrow> (n, True) \<in> set d)))"
proof (intro conjI impI)
  let ?on = "opts\<lparr>ensureValidKeys := True\<rparr>"
  let ?off = "opts\<lparr>ensureValidKeys := False\<rparr>"
  have "\<exists>e. parseCombination C kc ?on = Inl e"
    unfolding parseCombination_def
    using tok std inv by (intro reduceKeys_invalid [where tok = keyName and n = n]) simp_all
  then have "\<exists>e. combinationId C ?on kc = Inl e"
    by (auto simp: combinationId_def)
  with kc show "parse C s ?on = \<lparr>sequence = None, combination = None\<rparr>"
    unfolding parse_fails_iff by blast
  show "parse (C\<lparr>isValidKey := v\<rparr>) s ?off = parse C s ?off"
    by (rule parse_validity_unused) simp
  assume total: "(\<forall>k ctx. \<exists>m. standardizeKeyName C k ctx = Inr m)
          \<and> (\<forall>d. \<exists>i. normalizedCombinationId C d = Inr i)"
  have pc: "\<exists>d. parseCombination C c ?off = Inr d" for c
    using total by (intro parseCombination_total) simp_all
  have "\<exists>i. combinationId C ?off c = Inr i" for c
    using pc [of c] total by (auto simp: combinationId_def)
  then have "parse C s ?off \<noteq> \<lparr>sequence = None, combination = None\<rparr>"
    unfolding parse_fails_iff by (metis Inl_Inr_False)
  then obtain ids d i where
    d: "parseCombination C (last (keyCombinationsArray C s)) ?off = Inr d"
    and p: "parse C s ?off =
         \<lparr>sequence = Some
            \<lparr>prefix_s = joinWith '' '' ids,
             size_s = length (butlast (keyCombinationsArray C s)) + 1\<rparr>,
          combination = Some
            \<lparr>id_c = i, keyDictionary = d, keyEventType_c = keyEventType ?off,
             size_c = length (objectKeys d)\<rparr>\<rparr>"
    by (cases rule: parse_cases [of C s ?off]) auto
  have "kc = last (keyCombinationsArray C s) \<and> n \<noteq> ''__proto__'' \<longrightarrow> (n, True) \<in> set d"
    using d tok std by (auto intro: parseCombination_entry)
  with p show "\<exists>sq cb. parse C s ?off = \<lparr>sequence = Some sq, combination = Some cb\<rparr>
                 \<and> (kc = last (keyCombinationsArray C s) \<and> n \<noteq> ''__proto__'' \<longrightarrow>
                      (n, True) \<in> set (keyDictionary cb))"
    by simp
  from pc [of kc] obtain d' where d': "parseCombination C kc ?off = Inr d'" ..
  then have "n \<noteq> ''__proto__'' \<longrightarrow> (n, True) \<in> set d'"
    using tok std by (auto intro: parseCombination_entry)
  moreover have "n \<in> set (canonicalNames C kc)"
    using tok std by (auto simp: set_canonicalNames)
  moreover note parseCombination_fold [OF d']
  ultimately show "\<exists>d. parseCombination C kc ?off = Inr d
                 \<and> d = foldl (\<lambda>d m. objectSet d m True) [] (canonicalNames C kc)
                 \<and> n \<in> set (canonicalNames C kc)
                 \<and> (n \<noteq> ''__proto__'' \<longrightarrow> (n, True) \<in> set d)"
    using d' by blast
qed

theorem unrecognized_key_fails_only_under_validation_witness:
  "''foobar+a'' \<in> set (keyCombinationsArray sample ''foobar+a'')
   \<and> ''foobar'' \<in> set (keyNames ''foobar+a'')
   \<and> standardizeKeyName sample ''foobar'' (modifiersOf ''foobar+a'') = Inr ''foobar''
   \<and> isValidKey sample ''foobar'' = Inr False
   \<and> parse sample ''foobar+a'' \<lparr>keyEventType = (0 :: nat), ensureValidKeys = True\<rparr> =
       \<lparr>sequence = None, combination = None\<rparr>
   \<and> parse (sample\<lparr>isValidKey := throwingIsValid\<rparr>) ''foobar+a''
         \<lparr>keyEventType = (0 :: nat), ensureValidKeys = False\<rparr> =
       parse sample ''foobar+a'' \<lparr>keyEventType = (0 :: nat), ensureValidKeys = False\<rparr>
   \<and> (\<exists>sq cb. parse sample ''foobar+a'' \<lparr>keyEventType = (0 :: nat), ensureValidKeys = False\<rparr> =
                \<lparr>sequence = Some sq, combination = Some cb\<rparr>
              \<and> (''foobar'', True) \<in> set (keyDictionary cb))"
proof -
  let ?off = "\<lparr>keyEventType = (0 :: nat), ensureValidKeys = False\<rparr>"
  have kc: "''foobar+a'' \<in> set (keyCombinationsArray sample ''foobar+a'')"
    by code_simp
  have tok: "''foobar'' \<in> set (keyNames ''foobar+a'')"
    by code_simp
  have std: "standardizeKeyName sample ''foobar'' (modifiersOf ''foobar+a'') = Inr ''foobar''"
    by code_simp
  have inv: "isValidKey sample ''foobar'' = Inr False"
    by code_simp
  have l: "last (keyCombinationsArray sample ''foobar+a'') = ''foobar+a''"
    by code_simp
  have total: "(\<forall>k ctx. \<exists>m. standardizeKeyName sample k ctx = Inr m)
      \<and> (\<forall>d. \<exists>i. normalizedCombinationId sample d = Inr i)"
    by (simp add: sample_def sampleStandardize_def sampleNormalizedId_def)
  note th = unrecognized_key_fails_only_under_validation [OF kc tok std inv, of ?off throwingIsValid]
  from th have a: "parse sample ''foobar+a'' \<lparr>keyEventType = (0 :: nat), ensureValidKeys = True\<rparr> =
       \<lparr>sequence = None, combination = None\<rparr>"
    by simp
  from th have b: "parse (sample\<lparr>isValidKey := throwingIsValid\<rparr>) ''foobar+a'' ?off =
       parse sample ''foobar+a'' ?off"
    by simp
  from th total have "\<exists>sq cb. parse sample ''foobar+a'' (?off\<lparr>ensureValidKeys := False\<rparr>) =
                \<lparr>sequence = Some sq, combination = Some cb\<rparr>
              \<and> (''foobar+a'' = last (keyCombinationsArray sample ''foobar+a'')
                    \<and> ''foobar'' \<noteq> ''__proto__'' \<longrightarrow> (''foobar'', True) \<in> set (keyDictionary cb))"
    by blast
  then have c: "\<exists>sq cb. parse sample ''foobar+a'' ?off = \<lparr>sequence = Some sq, combination = Some cb\<rparr>
              \<and> (''foobar'', True) \<in> set (keyDictionary cb)"
    by (simp add: l)
  show ?thesis
    using kc tok std inv a b c by blast
qed

section \<open>The combination identifier\<close>

text \<open>
  C5. Let \<open>normalizedCombinationId\<close> depend on the set of the dictionary's keys only, as
  the spec says of it. Then two successful parses whose terminal combinations have the
  same set of canonical key names (as \<open>a+b\<close> and \<open>b+a\<close>) return the same
  \<open>combination.id\<close>; and so do two whose key dictionaries have the same set of keys.
\<close>

theorem combination_id_is_order_independent:
  assumes oi: "orderIndependent (normalizedCombinationId C)"
    and c1: "combination (parse C s1 opts1) = Some cb1"
    and c2: "combination (parse C s2 opts2) = Some cb2"
  shows "(set (canonicalNames C (last (keyCombinationsArray C s1))) =
            set (canonicalNames C (last (keyCombinationsArray C s2))) \<longrightarrow> id_c cb1 = id_c cb2)
       \<and> (set (objectKeys (keyDictionary cb1)) = set (objectKeys (keyDictionary cb2)) \<longrightarrow>
            id_c cb1 = id_c cb2)"
proof -
  note f1 = parse_combination_fields [OF c1] and f2 = parse_combination_fields [OF c2]
  have d1: "distinct (objectKeys (keyDictionary cb1))"
    using f1(1) by (rule parseCombination_distinct)
  have d2: "distinct (objectKeys (keyDictionary cb2))"
    using f2(1) by (rule parseCombination_distinct)
  have same: "id_c cb1 = id_c cb2"
    if "set (objectKeys (keyDictionary cb1)) = set (objectKeys (keyDictionary cb2))"
  proof -
    from oi d1 d2 that
    have "normalizedCombinationId C (keyDictionary cb1) = normalizedCombinationId C (keyDictionary cb2)"
      unfolding orderIndependent_def by blast
    with f1(2) f2(2) show ?thesis by simp
  qed
  have "set (objectKeys (keyDictionary cb1)) = set (objectKeys (keyDictionary cb2))"
    if "set (canonicalNames C (last (keyCombinationsArray C s1))) =
            set (canonicalNames C (last (keyCombinationsArray C s2)))"
    using that parseCombination_keys [OF f1(1)] parseCombination_keys [OF f2(1)] by simp
  with same show ?thesis by blast
qed

theorem combination_id_is_order_independent_witness:
  "orderIndependent (normalizedCombinationId sample)
   \<and> combination (parse sample ''a+b'' \<lparr>keyEventType = (0 :: nat), ensureValidKeys = True\<rparr>) =
       Some \<lparr>id_c = ''a+b'', keyDictionary = [(''a'', True), (''b'', True)],
             keyEventType_c = 0, size_c = 2\<rparr>
   \<and> combination (parse sample ''b+a'' \<lparr>keyEventType = (0 :: nat), ensureValidKeys = True\<rparr>) =
       Some \<lparr>id_c = ''a+b'', keyDictionary = [(''b'', True), (''a'', True)],
             keyEventType_c = 0, size_c = 2\<rparr>
   \<and> set (canonicalNames sample (last (keyCombinationsArray sample ''a+b''))) =
       set (canonicalNames sample (last (keyCombinationsArray sample ''b+a'')))
   \<and> id_c \<lparr>id_c = ''a+b'', keyDictionary = [(''a'', True), (''b'', True)],
             keyEventType_c = (0 :: nat), size_c = 2\<rparr> =
       id_c \<lparr>id_c = ''a+b'', keyDictionary = [(''b'', True), (''a'', True)],
             keyEventType_c = (0 :: nat), size_c = 2\<rparr>"
proof -
  let ?on = "\<lparr>keyEventType = (0 :: nat), ensureValidKeys = True\<rparr>"
  let ?c1 = "\<lparr>id_c = ''a+b'', keyDictionary = [(''a'', True), (''b'', True)],
             keyEventType_c = (0 :: nat), size_c = 2\<rparr>"
  let ?c2 = "\<lparr>id_c = ''a+b'', keyDictionary = [(''b'', True), (''a'', True)],
             keyEventType_c = (0 :: nat), size_c = 2\<rparr>"
  have p1: "combination (parse sample ''a+b'' ?on) = Some ?c1"
    by code_simp
  have p2: "combination (parse sample ''b+a'' ?on) = Some ?c2"
    by code_simp
  have n1: "canonicalNames sample (last (keyCombinationsArray sample ''a+b'')) = [''a'', ''b'']"
    by code_simp
  have n2: "canonicalNames sample (last (keyCombinationsArray sample ''b+a'')) = [''b'', ''a'']"
    by code_simp
  have same: "set (canonicalNames sample (last (keyCombinationsArray sample ''a+b''))) =
       set (canonicalNames sample (last (keyCombinationsArray sample ''b+a'')))"
    unfolding n1 n2 by auto
  have "id_c ?c1 = id_c ?c2"
    using combination_id_is_order_independent [OF sample_orderIndependent p1 p2] same
    by blast
  then show ?thesis
    using sample_orderIndependent p1 p2 same by blast
qed

section \<open>The key names of a combination\<close>

text \<open>
  C4. The rewrite replaces one \<open>+\<close> by \<open>plus\<close>: the first one that qualifies (the
  first character of the string, or a \<open>+\<close> after a whitespace character, or a \<open>+\<close>
  after a \<open>+\<close> that follows another character); a later qualifying \<open>+\<close> stays. When
  none qualifies the string is unchanged. The combination string \<open>+\<close> has the one key
  name \<open>plus\<close>, and a sequence that normalizes to \<open>+\<close> parses to a combination whose
  sole key is the canonical name of \<open>plus\<close> (when the helpers do not throw, that name
  is valid if validation is on, and it is not \<open>__proto__\<close>).
\<close>

theorem only_first_plus_is_rewritten:
  "(firstQualifying s i \<longrightarrow> replacePlus s = take i s @ ''plus'' @ drop (Suc i) s)
   \<and> (noneQualifies s \<longrightarrow> replacePlus s = s)
   \<and> (noneQualifies s \<or> (\<exists>j. firstQualifying s j))
   \<and> keyNames ''+'' = [''plus'']
   \<and> (stripSuperfluousWhitespace C sequenceString = ''+''
        \<and> standardizeKeyName C ''plus'' \<lparr>shift = False, alt = False\<rparr> = Inr n
        \<and> n \<noteq> ''__proto__''
        \<and> (ensureValidKeys opts \<longrightarrow> isValidKey C n = Inr True)
        \<and> normalizedCombinationId C [(n, True)] = Inr normalizedComboString \<longrightarrow>
      parse C sequenceString opts =
        \<lparr>sequence = Some \<lparr>prefix_s = [], size_s = 1\<rparr>,
         combination = Some
           \<lparr>id_c = normalizedComboString, keyDictionary = [(n, True)],
            keyEventType_c = keyEventType opts, size_c = 1\<rparr>\<rparr>)"
proof (intro conjI impI)
  assume "firstQualifying s i"
  then show "replacePlus s = take i s @ ''plus'' @ drop (Suc i) s"
    by (rule replacePlus_first)
next
  assume "noneQualifies s"
  then show "replacePlus s = s"
    by (rule replacePlus_none)
next
  show "noneQualifies s \<or> (\<exists>j. firstQualifying s j)"
    by (rule first_or_none)
  show "keyNames ''+'' = [''plus'']"
    by (rule keyNames_plus)
next
  assume a: "stripSuperfluousWhitespace C sequenceString = ''+''
        \<and> standardizeKeyName C ''plus'' \<lparr>shift = False, alt = False\<rparr> = Inr n
        \<and> n \<noteq> ''__proto__''
        \<and> (ensureValidKeys opts \<longrightarrow> isValidKey C n = Inr True)
        \<and> normalizedCombinationId C [(n, True)] = Inr normalizedComboString"
  then have combos: "keyCombinationsArray C sequenceString = [''+'']"
    by (simp add: keyCombinationsArray_def)
  have pc: "parseCombination C ''+'' opts = Inr [(n, True)]"
    using a by (simp add: parseCombination_def keyNames_plus modifiersOf_plus objectSet_empty)
  show "parse C sequenceString opts =
        \<lparr>sequence = Some \<lparr>prefix_s = [], size_s = 1\<rparr>,
         combination = Some
           \<lparr>id_c = normalizedComboString, keyDictionary = [(n, True)],
            keyEventType_c = keyEventType opts, size_c = 1\<rparr>\<rparr>"
    using a pc by (simp add: parse_def parseTry_def combos objectKeys_def)
qed

theorem only_first_plus_is_rewritten_witness:
  "firstQualifying ''a+++b+++c'' 2 \<and> plusQualifies ''a+++b+++c'' 6
   \<and> replacePlus ''a+++b+++c'' = ''a+plus+b+++c''
   \<and> noneQualifies ''ctrl+a'' \<and> replacePlus ''ctrl+a'' = ''ctrl+a''
   \<and> stripSuperfluousWhitespace sample '' + '' = ''+''
   \<and> standardizeKeyName sample ''plus'' \<lparr>shift = False, alt = False\<rparr> = Inr ''+''
   \<and> isValidKey sample ''+'' = Inr True
   \<and> normalizedCombinationId sample [(''+'', True)] = Inr ''+''
   \<and> parse sample '' + '' \<lparr>keyEventType = (0 :: nat), ensureValidKeys = True\<rparr> =
        \<lparr>sequence = Some \<lparr>prefix_s = [], size_s = 1\<rparr>,
         combination = Some
           \<lparr>id_c = ''+'', keyDictionary = [(''+'', True)], keyEventType_c = 0, size_c = 1\<rparr>\<rparr>"
proof -
  let ?on = "\<lparr>keyEventType = (0 :: nat), ensureValidKeys = True\<rparr>"
  have f: "firstQualifying ''a+++b+++c'' 2"
    by code_simp
  have q: "plusQualifies ''a+++b+++c'' 6"
    by code_simp
  have n: "noneQualifies ''ctrl+a''"
    by code_simp
  have r1: "replacePlus ''a+++b+++c'' = ''a+plus+b+++c''"
    using f only_first_plus_is_rewritten [of "''a+++b+++c''" 2, THEN conjunct1] by simp
  have r2: "replacePlus ''ctrl+a'' = ''ctrl+a''"
    using n only_first_plus_is_rewritten [of "''ctrl+a''", THEN conjunct2, THEN conjunct1]
    by blast
  have st: "stripSuperfluousWhitespace sample '' + '' = ''+''"
    by code_simp
  have sd: "standardizeKeyName sample ''plus'' \<lparr>shift = False, alt = False\<rparr> = Inr ''+''"
    by code_simp
  have v: "isValidKey sample ''+'' = Inr True"
    by code_simp
  have nm: "normalizedCombinationId sample [(''+'', True)] = Inr ''+''"
    by code_simp
  have p: "parse sample '' + '' ?on =
        \<lparr>sequence = Some \<lparr>prefix_s = [], size_s = 1\<rparr>,
         combination = Some
           \<lparr>id_c = ''+'', keyDictionary = [(''+'', True)], keyEventType_c = 0, size_c = 1\<rparr>\<rparr>"
    using st sd v nm
      only_first_plus_is_rewritten [of _ _ sample "'' + ''" "''+''" ?on "''+''",
        THEN conjunct2, THEN conjunct2, THEN conjunct2, THEN conjunct2]
    by simp
  show ?thesis
    using f q r1 n r2 st sd v nm p by blast
qed

text \<open>
  C8, as stated, fails: the string \<open>a+\<close> is not empty and has no whitespace, and its
  key names are \<open>a\<close> and the empty string.
\<close>

theorem tokens_can_be_empty:
  "''a+'' \<noteq> [] \<and> \<not> isSpace (hd ''a+'') \<and> \<not> isSpace (last ''a+'')
   \<and> keyNames ''a+'' = [''a'', []] \<and> [] \<in> set (keyNames ''a+'')
   \<and> keyNames ''a++++b'' = [''a'', ''plus'', [], ''b'']"
  by code_simp

text \<open>
  C8, amended. The key names of a combination string are a non-empty list of strings
  without \<open>+\<close> whose join by \<open>+\<close> is the rewritten string. They are all non-empty
  exactly when the rewritten string is not empty, neither begins nor ends with \<open>+\<close> and
  has no two adjacent \<open>+\<close>; this is so whenever the combination string itself is not
  empty, neither begins nor ends with \<open>+\<close> and has no two adjacent \<open>+\<close>.
\<close>

theorem tokens_nonempty_iff:
  "keyNames s \<noteq> []
   \<and> joinWith ''+'' (keyNames s) = replacePlus s
   \<and> (\<forall>t\<in>set (keyNames s). CHR ''+'' \<notin> set t)
   \<and> ((\<forall>t\<in>set (keyNames s). t \<noteq> []) \<longleftrightarrow>
        replacePlus s \<noteq> [] \<and> hd (replacePlus s) \<noteq> CHR ''+'' \<and> last (replacePlus s) \<noteq> CHR ''+''
        \<and> \<not> sublist ''++'' (replacePlus s))
   \<and> (s \<noteq> [] \<and> hd s \<noteq> CHR ''+'' \<and> last s \<noteq> CHR ''+'' \<and> \<not> sublist ''++'' s \<longrightarrow>
        (\<forall>t\<in>set (keyNames s). t \<noteq> []))"
proof (intro conjI impI)
  show "keyNames s \<noteq> []"
    by (simp add: keyNames_def)
  show "joinWith ''+'' (keyNames s) = replacePlus s"
    by (simp add: keyNames_def joinWith_splitOn)
  show "\<forall>t\<in>set (keyNames s). CHR ''+'' \<notin> set t"
    by (auto simp: keyNames_def dest: splitOn_no_sep)
  show iff: "(\<forall>t\<in>set (keyNames s). t \<noteq> []) \<longleftrightarrow>
        replacePlus s \<noteq> [] \<and> hd (replacePlus s) \<noteq> CHR ''+'' \<and> last (replacePlus s) \<noteq> CHR ''+''
        \<and> \<not> sublist ''++'' (replacePlus s)"
    unfolding keyNames_def by (rule splitOn_all_nonempty_iff)
  assume "s \<noteq> [] \<and> hd s \<noteq> CHR ''+'' \<and> last s \<noteq> CHR ''+'' \<and> \<not> sublist ''++'' s"
  then have "replacePlus s \<noteq> [] \<and> hd (replacePlus s) \<noteq> CHR ''+'' \<and> last (replacePlus s) \<noteq> CHR ''+''
     \<and> \<not> sublist ''++'' (replacePlus s)"
    by (intro replacePlus_keeps_shape) simp_all
  with iff show "\<forall>t\<in>set (keyNames s). t \<noteq> []"
    by blast
qed

theorem tokens_nonempty_iff_witness:
  "''ctrl+a'' \<noteq> [] \<and> hd ''ctrl+a'' \<noteq> CHR ''+'' \<and> last ''ctrl+a'' \<noteq> CHR ''+''
   \<and> \<not> sublist ''++'' ''ctrl+a''
   \<and> keyNames ''ctrl+a'' = [''ctrl'', ''a'']
   \<and> [] \<notin> set (keyNames ''ctrl+a'')
   \<and> replacePlus ''a+'' = ''a+'' \<and> last (replacePlus ''a+'') = CHR ''+''
   \<and> [] \<in> set (keyNames ''a+'')"
proof -
  have a: "''ctrl+a'' \<noteq> [] \<and> hd ''ctrl+a'' \<noteq> CHR ''+'' \<and> last ''ctrl+a'' \<noteq> CHR ''+''
      \<and> \<not> sublist ''++'' ''ctrl+a''"
    by code_simp
  have k: "keyNames ''ctrl+a'' = [''ctrl'', ''a'']"
    by code_simp
  have "\<forall>t\<in>set (keyNames ''ctrl+a''). t \<noteq> []"
    using a tokens_nonempty_iff [of "''ctrl+a''"] by blast
  then have n: "[] \<notin> set (keyNames ''ctrl+a'')"
    by blast
  have r: "replacePlus ''a+'' = ''a+'' \<and> last (replacePlus ''a+'') = CHR ''+''"
    by code_simp
  then have "\<not> (\<forall>t\<in>set (keyNames ''a+''). t \<noteq> [])"
    using tokens_nonempty_iff [of "''a+''"] by blast
  then have e: "[] \<in> set (keyNames ''a+'')"
    by blast
  show ?thesis
    using a k n r e by blast
qed
end
